theory Spec2Isabelle
  imports Complex_Main "HOL-Library.Word" "HOL-Library.Sublist"
begin

unbundle bit_operations_syntax

section \<open>Python strings\<close>

text \<open>
  A Python \<open>str\<close> is modelled as a \<^typ>\<open>string\<close>, one \<^typ>\<open>char\<close> per code point, so the
  model covers the texts whose code points lie below U+0100 (ASCII and Latin-1).  On that
  range \<open>str.isspace\<close>, the regex class \<open>\s\<close> and \<open>str.strip()\<close> agree on the set below,
  \<open>str.lower()\<close> stays inside the range, and every string is already in Unicode normal
  form NFC.
\<close>

datatype py_error = KeyError | ValueError | IndexError | ZeroDivisionError | EngineError string

definition py_isspace :: "char \<Rightarrow> bool" where
  "py_isspace c = (of_char c \<in> {9, 10, 11, 12, 13, 28, 29, 30, 31, 32, 133, 160 :: nat})"

definition is_ascii_digit :: "char \<Rightarrow> bool" where
  "is_ascii_digit c = (48 \<le> (of_char c :: nat) \<and> (of_char c :: nat) \<le> 57)"

definition is_ascii_upper :: "char \<Rightarrow> bool" where
  "is_ascii_upper c = (65 \<le> (of_char c :: nat) \<and> (of_char c :: nat) \<le> 90)"

definition is_ascii_lower :: "char \<Rightarrow> bool" where
  "is_ascii_lower c = (97 \<le> (of_char c :: nat) \<and> (of_char c :: nat) \<le> 122)"

text \<open>\<open>c.isdigit()\<close>: the decimal digits and the superscripts two, three and one.\<close>

definition py_isdigit :: "char \<Rightarrow> bool" where
  "py_isdigit c = (is_ascii_digit c \<or> of_char c \<in> {178, 179, 185 :: nat})"

text \<open>\<open>int(c)\<close> for a one-character string: the superscripts raise \<open>ValueError\<close>.\<close>

definition py_int_char :: "char \<Rightarrow> py_error + nat" where
  "py_int_char c = (if is_ascii_digit c then Inr (of_char c - 48) else Inl ValueError)"

definition lower_char :: "char \<Rightarrow> char" where
  "lower_char c =
     (let n = (of_char c :: nat) in
      if (65 \<le> n \<and> n \<le> 90) \<or> (192 \<le> n \<and> n \<le> 222 \<and> n \<noteq> 215) then char_of (n + 32) else c)"

text \<open>
  \<open>str.upper()\<close>: the sharp s, the y with diaeresis and the micro sign, whose upper-case
  forms leave the range of the model, are kept as they are.
\<close>

definition upper_char :: "char \<Rightarrow> char" where
  "upper_char c =
     (let n = (of_char c :: nat) in
      if (97 \<le> n \<and> n \<le> 122) \<or> (224 \<le> n \<and> n \<le> 254 \<and> n \<noteq> 247) then char_of (n - 32) else c)"

definition lower :: "string \<Rightarrow> string" where
  "lower s = map lower_char s"

definition upper :: "string \<Rightarrow> string" where
  "upper s = map upper_char s"

definition lstrip :: "string \<Rightarrow> string" where
  "lstrip s = dropWhile py_isspace s"

definition rstrip :: "string \<Rightarrow> string" where
  "rstrip s = rev (dropWhile py_isspace (rev s))"

definition strip :: "string \<Rightarrow> string" where
  "strip s = rstrip (lstrip s)"

text \<open>\<open>s.startswith(p)\<close> and \<open>p in s\<close>.\<close>

fun startswith :: "string \<Rightarrow> string \<Rightarrow> bool" where
  "startswith s [] = True"
| "startswith [] (p # ps) = False"
| "startswith (c # cs) (p # ps) = (c = p \<and> startswith cs ps)"

fun contains :: "string \<Rightarrow> string \<Rightarrow> bool" where
  "contains [] p = (p = [])"
| "contains (c # cs) p = (startswith (c # cs) p \<or> contains cs p)"

text \<open>\<open>s.index(c)\<close> for a character: the first position, \<open>ValueError\<close> when there is none.\<close>

fun str_index :: "string \<Rightarrow> char \<Rightarrow> py_error + nat" where
  "str_index [] c = Inl ValueError"
| "str_index (x # xs) c =
     (if x = c then Inr 0
      else case str_index xs c of Inl e \<Rightarrow> Inl e | Inr n \<Rightarrow> Inr (Suc n))"

text \<open>\<open>s.replace(old, new)\<close> for a non-empty \<open>old\<close>: left to right, without overlaps.\<close>

fun str_replace :: "string \<Rightarrow> string \<Rightarrow> string \<Rightarrow> string" where
  "str_replace old new [] = []"
| "str_replace old new (c # cs) =
     (if old \<noteq> [] \<and> startswith (c # cs) old
      then new @ str_replace old new (drop (length old) (c # cs))
      else c # str_replace old new cs)"


section \<open>Validators\<close>

subsection \<open>Fiscal code, filter chain (\<open>pipeline/filters.py\<close>)\<close>

text \<open>
  The anchored pattern \<open>^[A-Z]{6}[0-9]{2}[A-Z][0-9]{2}[A-Z][0-9]{3}[A-Z]$\<close> under
  \<open>re.match\<close>: one class per position; \<open>$\<close> also matches before a final newline.
\<close>

definition cf_classes :: "(char \<Rightarrow> bool) list" where
  "cf_classes =
     replicate 6 is_ascii_upper @ replicate 2 is_ascii_digit @ [is_ascii_upper] @
     replicate 2 is_ascii_digit @ [is_ascii_upper] @ replicate 3 is_ascii_digit @ [is_ascii_upper]"

definition classes_match :: "(char \<Rightarrow> bool) list \<Rightarrow> string \<Rightarrow> bool" where
  "classes_match cls s = list_all2 (\<lambda>p c. p c) cls s"

definition cf_pattern_match :: "string \<Rightarrow> bool" where
  "cf_pattern_match s =
     (classes_match cf_classes s \<or>
      (s \<noteq> [] \<and> last s = CHR 0x0A \<and> classes_match cf_classes (butlast s)))"

definition odd_digit_values :: "nat list" where
  "odd_digit_values = [1, 0, 5, 7, 9, 13, 15, 17, 19, 21]"

definition odd_chars :: string where
  "odd_chars = ''BAFHJNPRTVCESULDGIMOQKWZYX''"

definition even_chars :: string where
  "even_chars = ''ABCDEFGHIJKLMNOPQRSTUVWXYZ''"

definition check_chars :: string where
  "check_chars = ''ABCDEFGHIJKLMNOPQRSTUVWXYZ''"

text \<open>The value one character adds to the running total in the loop over \<open>enumerate(cf[:15])\<close>.\<close>

definition cf_char_value :: "nat \<Rightarrow> char \<Rightarrow> py_error + nat" where
  "cf_char_value i c =
     (if i mod 2 = 0 then
        (if py_isdigit c
         then (case py_int_char c of Inl e \<Rightarrow> Inl e | Inr d \<Rightarrow> Inr (odd_digit_values ! d))
         else str_index odd_chars c)
      else
        (if py_isdigit c then py_int_char c else str_index even_chars c))"

fun cf_total :: "nat \<Rightarrow> (nat \<times> char) list \<Rightarrow> py_error + nat" where
  "cf_total tot [] = Inr tot"
| "cf_total tot ((i, c) # rest) =
     (case cf_char_value i c of Inl e \<Rightarrow> Inl e | Inr v \<Rightarrow> cf_total (tot + v) rest)"

definition validate_italian_fiscal_code :: "string \<Rightarrow> py_error + bool" where
  "validate_italian_fiscal_code cf0 =
     (let cf = strip (upper cf0) in
      if length cf \<noteq> 16 then Inr False
      else if \<not> cf_pattern_match cf then Inr False
      else case cf_total 0 (enumerate 0 (take 15 cf)) of
             Inl e \<Rightarrow> Inl e
           | Inr tot \<Rightarrow> Inr (check_chars ! (tot mod 26) = cf ! 15))"

subsection \<open>Fiscal code, recognizer (\<open>recognizers/cf_recognizer.py\<close>)\<close>

definition ODD_MAP :: "char \<rightharpoonup> nat" where
  "ODD_MAP = map_of
     [(CHR ''0'', 1), (CHR ''1'', 0), (CHR ''2'', 5), (CHR ''3'', 7), (CHR ''4'', 9),
      (CHR ''5'', 13), (CHR ''6'', 15), (CHR ''7'', 17), (CHR ''8'', 19), (CHR ''9'', 21),
      (CHR ''A'', 1), (CHR ''B'', 0), (CHR ''C'', 5), (CHR ''D'', 7), (CHR ''E'', 9),
      (CHR ''F'', 13), (CHR ''G'', 15), (CHR ''H'', 17), (CHR ''I'', 19), (CHR ''J'', 21),
      (CHR ''K'', 2), (CHR ''L'', 4), (CHR ''M'', 18), (CHR ''N'', 20), (CHR ''O'', 11),
      (CHR ''P'', 3), (CHR ''Q'', 6), (CHR ''R'', 8), (CHR ''S'', 12), (CHR ''T'', 14),
      (CHR ''U'', 16), (CHR ''V'', 10), (CHR ''W'', 22), (CHR ''X'', 25), (CHR ''Y'', 24),
      (CHR ''Z'', 23)]"

definition EVEN_MAP :: "char \<rightharpoonup> nat" where
  "EVEN_MAP = map_of
     [(CHR ''0'', 0), (CHR ''1'', 1), (CHR ''2'', 2), (CHR ''3'', 3), (CHR ''4'', 4),
      (CHR ''5'', 5), (CHR ''6'', 6), (CHR ''7'', 7), (CHR ''8'', 8), (CHR ''9'', 9),
      (CHR ''A'', 0), (CHR ''B'', 1), (CHR ''C'', 2), (CHR ''D'', 3), (CHR ''E'', 4),
      (CHR ''F'', 5), (CHR ''G'', 6), (CHR ''H'', 7), (CHR ''I'', 8), (CHR ''J'', 9),
      (CHR ''K'', 10), (CHR ''L'', 11), (CHR ''M'', 12), (CHR ''N'', 13), (CHR ''O'', 14),
      (CHR ''P'', 15), (CHR ''Q'', 16), (CHR ''R'', 17), (CHR ''S'', 18), (CHR ''T'', 19),
      (CHR ''U'', 20), (CHR ''V'', 21), (CHR ''W'', 22), (CHR ''X'', 23), (CHR ''Y'', 24),
      (CHR ''Z'', 25)]"

definition CHECKSUM_LETTERS :: string where
  "CHECKSUM_LETTERS = ''ABCDEFGHIJKLMNOPQRSTUVWXYZ''"

text \<open>\<open>d.get(k, 0)\<close>.\<close>

definition get_or_zero :: "(char \<rightharpoonup> nat) \<Rightarrow> char \<Rightarrow> nat" where
  "get_or_zero d k = (case d k of None \<Rightarrow> 0 | Some v \<Rightarrow> v)"

fun recognizer_cf_total :: "nat \<Rightarrow> (nat \<times> char) list \<Rightarrow> nat" where
  "recognizer_cf_total tot [] = tot"
| "recognizer_cf_total tot ((i, c) # rest) =
     recognizer_cf_total
       (tot + (if i mod 2 = 0 then get_or_zero ODD_MAP c else get_or_zero EVEN_MAP c)) rest"

definition validate_cf_checksum :: "string \<Rightarrow> bool" where
  "validate_cf_checksum cf =
     (if length cf \<noteq> 16 then False
      else let tot = recognizer_cf_total 0 (enumerate 0 (take 15 cf));
               checksum_index = tot mod 26;
               expected_checksum = CHECKSUM_LETTERS ! checksum_index
           in cf ! 15 = expected_checksum)"

subsection \<open>VAT number, filter chain (\<open>pipeline/filters.py\<close>)\<close>

text \<open>\<open>s.isdigit()\<close> on a string: non-empty, and every character a digit.\<close>

definition str_isdigit :: "string \<Rightarrow> bool" where
  "str_isdigit s = (s \<noteq> [] \<and> list_all py_isdigit s)"

text \<open>The body of the loop over \<open>enumerate(piva[:10])\<close>.\<close>

fun vat_total :: "nat \<Rightarrow> (nat \<times> char) list \<Rightarrow> py_error + nat" where
  "vat_total tot [] = Inr tot"
| "vat_total tot ((i, digit) # rest) =
     (case py_int_char digit of
        Inl e \<Rightarrow> Inl e
      | Inr n0 \<Rightarrow>
          (let n1 = (if i mod 2 = 1 then n0 * 2 else n0);
               n = (if i mod 2 = 1 \<and> n1 > 9 then n1 div 10 + n1 mod 10 else n1)
           in vat_total (tot + n) rest))"

definition validate_italian_vat :: "string \<Rightarrow> py_error + bool" where
  "validate_italian_vat piva0 =
     (let piva = str_replace ''it'' [] (str_replace ''IT'' [] (strip piva0)) in
      if length piva \<noteq> 11 then Inr False
      else if \<not> str_isdigit piva then Inr False
      else case vat_total 0 (enumerate 0 (take 10 piva)) of
             Inl e \<Rightarrow> Inl e
           | Inr tot \<Rightarrow>
               (case py_int_char (piva ! 10) of
                  Inl e \<Rightarrow> Inl e
                | Inr last_digit \<Rightarrow> Inr ((10 - tot mod 10) mod 10 = last_digit)))"

subsection \<open>VAT number, recognizer (\<open>recognizers/piva_recognizer.py\<close>)\<close>

text \<open>\<open>[int(d) for d in piva[:10]]\<close>.\<close>

fun int_digits :: "string \<Rightarrow> py_error + nat list" where
  "int_digits [] = Inr []"
| "int_digits (d # ds) =
     (case py_int_char d of
        Inl e \<Rightarrow> Inl e
      | Inr n \<Rightarrow> (case int_digits ds of Inl e \<Rightarrow> Inl e | Inr ns \<Rightarrow> Inr (n # ns)))"

fun piva_total :: "nat \<Rightarrow> (nat \<times> nat) list \<Rightarrow> nat" where
  "piva_total tot [] = tot"
| "piva_total tot ((i, digit) # rest) =
     piva_total
       (tot + (if i mod 2 = 0 then digit
               else (let doubled = digit * 2 in if doubled > 9 then doubled - 9 else doubled)))
       rest"

definition validate_piva_checksum :: "string \<Rightarrow> py_error + bool" where
  "validate_piva_checksum piva =
     (if length piva \<noteq> 11 \<or> \<not> str_isdigit piva then Inr False
      else case int_digits (take 10 piva) of
             Inl e \<Rightarrow> Inl e
           | Inr digits \<Rightarrow>
               (case py_int_char (piva ! 10) of
                  Inl e \<Rightarrow> Inl e
                | Inr check_digit \<Rightarrow>
                    (let tot = piva_total 0 (enumerate 0 digits);
                         expected_check = (10 - tot mod 10) mod 10
                     in Inr (check_digit = expected_check))))"

text \<open>\<open>ItalianPIVARecognizer.validate_result\<close>; \<open>pattern_text[0]\<close> raises on the empty string.\<close>

definition validate_result :: "string \<Rightarrow> py_error + bool" where
  "validate_result pattern_text =
     (case pattern_text of
        [] \<Rightarrow> Inl IndexError
      | c # _ \<Rightarrow> if c = CHR ''0'' then Inr False else validate_piva_checksum pattern_text)"

subsection \<open>E-mail address and Italian phone number (\<open>pipeline/filters.py\<close>)\<close>

definition is_ascii_alpha :: "char \<Rightarrow> bool" where
  "is_ascii_alpha c = (is_ascii_upper c \<or> is_ascii_lower c)"

definition is_ascii_alnum :: "char \<Rightarrow> bool" where
  "is_ascii_alnum c = (is_ascii_alpha c \<or> is_ascii_digit c)"

definition email_local_char :: "char \<Rightarrow> bool" where
  "email_local_char c = (is_ascii_alnum c \<or> c \<in> set ''._%+-'')"

definition email_domain_char :: "char \<Rightarrow> bool" where
  "email_domain_char c = (is_ascii_alnum c \<or> c \<in> set ''.-'')"

text \<open>
  \<open>[a-zA-Z0-9.-]+\.[a-zA-Z]{2,}\<close> up to the end: the top-level part has no dot, so it is
  what follows the last dot.
\<close>

definition email_domain_match :: "string \<Rightarrow> bool" where
  "email_domain_match d =
     (let r = rev d;
          tld = takeWhile (\<lambda>c. c \<noteq> CHR ''.'') r;
          host = dropWhile (\<lambda>c. c \<noteq> CHR ''.'') r
      in host \<noteq> [] \<and> 2 \<le> length tld \<and> list_all is_ascii_alpha tld \<and>
         tl host \<noteq> [] \<and> list_all email_domain_char (tl host))"

definition email_core_match :: "string \<Rightarrow> bool" where
  "email_core_match s =
     (let local_part = takeWhile email_local_char s;
          rest = dropWhile email_local_char s
      in local_part \<noteq> [] \<and> rest \<noteq> [] \<and> hd rest = CHR ''@'' \<and> email_domain_match (tl rest))"

text \<open>\<open>re.match\<close> of \<open>^[a-zA-Z0-9._%+-]+@[a-zA-Z0-9.-]+\.[a-zA-Z]{2,}$\<close>.\<close>

definition validate_email :: "string \<Rightarrow> bool" where
  "validate_email email =
     (email_core_match email \<or>
      (email \<noteq> [] \<and> last email = CHR 0x0A \<and> email_core_match (butlast email)))"

definition digits_9_10 :: "string \<Rightarrow> bool" where
  "digits_9_10 s = ((length s = 9 \<or> length s = 10) \<and> list_all is_ascii_digit s)"

definition validate_italian_phone :: "string \<Rightarrow> bool" where
  "validate_italian_phone phone0 =
     (let phone = filter (\<lambda>c. \<not> (py_isspace c \<or> c \<in> set ''-()'')) phone0 in
      (startswith phone ''+39'' \<and> digits_9_10 (drop 3 phone)) \<or>
      (startswith phone ''0039'' \<and> digits_9_10 (drop 4 phone)) \<or>
      digits_9_10 phone)"

section \<open>Data model (\<open>pipeline/base_pipeline.py\<close>)\<close>

datatype EntityType =
  PERSON | ORGANIZATION | LOCATION | DATE | FISCAL_CODE | VAT_NUMBER | EMAIL | PHONE |
  ADDRESS | COURT | JUDGE | LAWYER | ID_CARD | PASSPORT | IBAN | OTHER

text \<open>The \<open>value\<close> of each member of the enumeration.\<close>

fun type_value :: "EntityType \<Rightarrow> string" where
  "type_value PERSON = ''PERSON''"
| "type_value ORGANIZATION = ''ORG''"
| "type_value LOCATION = ''LOC''"
| "type_value DATE = ''DATE''"
| "type_value FISCAL_CODE = ''CF''"
| "type_value VAT_NUMBER = ''PIVA''"
| "type_value EMAIL = ''EMAIL''"
| "type_value PHONE = ''PHONE''"
| "type_value ADDRESS = ''ADDRESS''"
| "type_value COURT = ''COURT''"
| "type_value JUDGE = ''JUDGE''"
| "type_value LAWYER = ''LAWYER''"
| "type_value ID_CARD = ''ID_CARD''"
| "type_value PASSPORT = ''PASSPORT''"
| "type_value IBAN = ''IBAN''"
| "type_value OTHER = ''OTHER''"

text \<open>
  \<open>DetectedEntity\<close>.  The constructor raises unless \<open>0 \<le> start < end\<close>, so the offsets
  are naturals and \<open>valid_entity\<close> is what the constructor leaves to check.  Of the
  metadata bag only the entry \<open>sensitivity_level\<close>, which the filter chain writes, is kept;
  the context windows are not modelled.
\<close>

record DetectedEntity =
  e_text :: string
  e_type :: EntityType
  e_start :: nat
  e_end :: nat
  confidence :: rat
  sensitivity_level :: "string option"

definition valid_entity :: "DetectedEntity \<Rightarrow> bool" where
  "valid_entity e = (e_start e < e_end e \<and> 0 \<le> confidence e \<and> confidence e \<le> 1)"

text \<open>
  \<open>PipelineResult\<close>; \<open>error_message\<close> carries the exception itself.  The processing time
  and the metadata bag are not modelled.
\<close>

record PipelineResult =
  original_text :: string
  anonymized_text :: string
  entities :: "DetectedEntity list"
  success :: bool
  error_message :: "py_error option"

section \<open>Filters (\<open>pipeline/filters.py\<close>)\<close>

subsection \<open>Text normalization\<close>

definition is_blank :: "char \<Rightarrow> bool" where
  "is_blank c = (c = CHR '' '' \<or> c = CHR 0x09)"

text \<open>\<open>re.sub(r'[ \t]+', ' ', text)\<close>: every maximal run of spaces and tabs becomes one space.\<close>

function sub_blanks :: "string \<Rightarrow> string" where
  "sub_blanks [] = []"
| "sub_blanks (c # cs) =
     (if is_blank c then CHR '' '' # sub_blanks (dropWhile is_blank cs) else c # sub_blanks cs)"
  by pat_completeness auto
termination
  by (relation "measure length") (auto simp: length_dropWhile_le less_Suc_eq_le)

text \<open>The position of the last newline of a string.\<close>

fun last_newline :: "string \<Rightarrow> nat option" where
  "last_newline [] = None"
| "last_newline (x # xs) =
     (case last_newline xs of
        Some k \<Rightarrow> Some (Suc k)
      | None \<Rightarrow> if x = CHR 0x0A then Some 0 else None)"

text \<open>
  A match of \<open>\n\s+\n\<close> whose first newline has just been read: \<open>\s+\<close> is greedy and
  backtracks, so the match ends at the last newline of the whitespace run that follows,
  provided at least one character lies in between.  The result is the position of that
  newline in the rest of the text.
\<close>

definition blank_lines_match :: "string \<Rightarrow> nat option" where
  "blank_lines_match cs =
     (case takeWhile py_isspace cs of
        [] \<Rightarrow> None
      | x # w \<Rightarrow> map_option Suc (last_newline w))"

text \<open>\<open>re.sub(r'\n\s+\n', '\n\n', text)\<close>: leftmost matches, scanned from left to right.\<close>

function sub_blank_lines :: "string \<Rightarrow> string" where
  "sub_blank_lines [] = []"
| "sub_blank_lines (c # cs) =
     (if c = CHR 0x0A then
        (case blank_lines_match cs of
           Some k \<Rightarrow> CHR 0x0A # CHR 0x0A # sub_blank_lines (drop (Suc k) cs)
         | None \<Rightarrow> c # sub_blank_lines cs)
      else c # sub_blank_lines cs)"
  by pat_completeness auto
termination
  by (relation "measure length") auto

text \<open>\<open>re.sub(r'\s+', ' ', text)\<close>, the branch taken when newlines are not preserved.\<close>

function sub_spaces :: "string \<Rightarrow> string" where
  "sub_spaces [] = []"
| "sub_spaces (c # cs) =
     (if py_isspace c then CHR '' '' # sub_spaces (dropWhile py_isspace cs) else c # sub_spaces cs)"
  by pat_completeness auto
termination
  by (relation "measure length") (auto simp: length_dropWhile_le less_Suc_eq_le)

text \<open>
  \<open>normalize_text\<close>.  On the code points of the model \<open>unicodedata.normalize('NFC', text)\<close>
  returns its argument, whatever the flag \<open>normalize_unicode\<close>.
\<close>

definition normalize_text :: "string \<Rightarrow> bool \<Rightarrow> bool \<Rightarrow> bool \<Rightarrow> bool \<Rightarrow> string" where
  "normalize_text text0 lowercase remove_extra_whitespace normalize_unicode preserve_newlines =
     (if text0 = [] then text0
      else
        let text1 = (if normalize_unicode then text0 else text0);
            text2 = (if remove_extra_whitespace then
                       (if preserve_newlines then sub_blank_lines (sub_blanks text1)
                        else sub_spaces text1)
                     else text1);
            text3 = (if lowercase then lower text2 else text2)
        in strip text3)"

subsection \<open>Context detection\<close>

datatype DocumentType =
  SENTENZA | CONTRATTO | ATTO | VERBALE | PARERE | RICORSO | CITAZIONE | UNKNOWN




subsection \<open>Entity validation\<close>

definition validate_entity :: "DetectedEntity \<Rightarrow> py_error + bool" where
  "validate_entity entity =
     (if e_type entity = FISCAL_CODE then validate_italian_fiscal_code (e_text entity)
      else if e_type entity = VAT_NUMBER then validate_italian_vat (e_text entity)
      else if e_type entity = EMAIL then Inr (validate_email (e_text entity))
      else if e_type entity = PHONE then Inr (validate_italian_phone (e_text entity))
      else Inr True)"

fun validate_entities :: "DetectedEntity list \<Rightarrow> py_error + DetectedEntity list" where
  "validate_entities [] = Inr []"
| "validate_entities (entity # rest) =
     (case validate_entity entity of
        Inl e \<Rightarrow> Inl e
      | Inr is_valid \<Rightarrow>
          (case validate_entities rest of
             Inl e \<Rightarrow> Inl e
           | Inr validated \<Rightarrow> Inr (if is_valid then entity # validated else validated)))"

subsection \<open>Legal formulas\<close>

text \<open>
  The patterns are literal texts (the class in the first one holds the apostrophe only),
  searched in a lower-cased window, so a search is a test of containment.
\<close>

definition LEGAL_FORMULAS :: "string list" where
  "LEGAL_FORMULAS =
     [''ai sensi dell'' @ [CHR 0x27] @ ''art.'',
      ''in conformit'' @ [CHR 0xE0] @ '' a quanto previsto'',
      ''cos'' @ [CHR 0xEC] @ '' come disposto'',
      ''nel rispetto di'',
      ''in ottemperanza a'',
      ''visto il'',
      ''considerato che'',
      ''ritenuto in fatto ed in diritto'']"

definition entity_context :: "string \<Rightarrow> DetectedEntity \<Rightarrow> string" where
  "entity_context text0 entity =
     (let context_start = e_start entity - 50;
          context_end = min (length text0) (e_end entity + 50)
      in lower (take (context_end - context_start) (drop context_start text0)))"

definition legal_pattern_matcher :: "string \<Rightarrow> DetectedEntity list \<Rightarrow> DetectedEntity list" where
  "legal_pattern_matcher text0 ents =
     filter (\<lambda>entity. \<not> list_ex (\<lambda>pattern. contains (entity_context text0 entity) pattern)
                          LEGAL_FORMULAS) ents"

subsection \<open>Sensitivity scoring\<close>

definition sensitivity_of :: "EntityType \<Rightarrow> string" where
  "sensitivity_of t =
     (if t \<in> {FISCAL_CODE, ID_CARD, PASSPORT} then ''high''
      else if t \<in> {PERSON, ADDRESS, EMAIL, PHONE} then ''medium''
      else if t \<in> {ORGANIZATION, COURT} then ''low''
      else ''medium'')"

definition sensitivity_scorer :: "DetectedEntity list \<Rightarrow> DetectedEntity list" where
  "sensitivity_scorer ents =
     map (\<lambda>entity. entity\<lparr>sensitivity_level := Some (sensitivity_of (e_type entity))\<rparr>) ents"

subsection \<open>Filter chain\<close>

text \<open>A filter is any callable, so it may also raise.\<close>

record FilterChain =
  text_filters :: "(string \<Rightarrow> py_error + string) list"
  entity_filters :: "(DetectedEntity list \<Rightarrow> py_error + DetectedEntity list) list"
  context_filters :: "(string \<Rightarrow> DetectedEntity list \<Rightarrow> py_error + DetectedEntity list) list"

fun apply_filters :: "('a \<Rightarrow> py_error + 'a) list \<Rightarrow> 'a \<Rightarrow> py_error + 'a" where
  "apply_filters [] x = Inr x"
| "apply_filters (filter_func # rest) x =
     (case filter_func x of Inl e \<Rightarrow> Inl e | Inr y \<Rightarrow> apply_filters rest y)"

definition apply_text_filters :: "FilterChain \<Rightarrow> string \<Rightarrow> py_error + string" where
  "apply_text_filters chain text0 = apply_filters (text_filters chain) text0"

text \<open>The context-aware filters run only when a non-empty text is given.\<close>

definition apply_entity_filters ::
  "FilterChain \<Rightarrow> DetectedEntity list \<Rightarrow> string option \<Rightarrow> py_error + DetectedEntity list" where
  "apply_entity_filters chain ents text_opt =
     (case apply_filters (entity_filters chain) ents of
        Inl e \<Rightarrow> Inl e
      | Inr ents1 \<Rightarrow>
          (case text_opt of
             None \<Rightarrow> Inr ents1
           | Some text0 \<Rightarrow>
               if text0 = [] then Inr ents1
               else apply_filters (map (\<lambda>filter_func. filter_func text0) (context_filters chain)) ents1))"

definition apply_chain ::
  "FilterChain \<Rightarrow> string \<Rightarrow> DetectedEntity list option \<Rightarrow>
   py_error + (string \<times> DetectedEntity list option)" where
  "apply_chain chain text0 ents_opt =
     (case apply_text_filters chain text0 of
        Inl e \<Rightarrow> Inl e
      | Inr filtered_text \<Rightarrow>
          (case ents_opt of
             None \<Rightarrow> Inr (filtered_text, None)
           | Some ents \<Rightarrow>
               (case apply_entity_filters chain ents (Some filtered_text) of
                  Inl e \<Rightarrow> Inl e
                | Inr filtered_entities \<Rightarrow> Inr (filtered_text, Some filtered_entities))))"

section \<open>Replacement strategies (\<open>pipeline/strategies.py\<close>)\<close>

text \<open>\<open>str(n)\<close> for a natural number, and \<open>chr(n)\<close>.\<close>

definition digit_char :: "nat \<Rightarrow> char" where
  "digit_char d = char_of (48 + d)"

function str_nat :: "nat \<Rightarrow> string" where
  "str_nat n = (if n < 10 then [digit_char n] else str_nat (n div 10) @ [digit_char (n mod 10)])"
  by pat_completeness auto
termination
  by (relation "measure id") auto

definition chr :: "nat \<Rightarrow> char" where
  "chr n = char_of n"

text \<open>
  A format template, parsed: literal text and the two replacement fields \<open>{type}\<close> and
  \<open>{index}\<close>.  The default template is \<open>"{type}_{index}"\<close>.
\<close>

datatype template_piece = Lit string | Type_field | Index_field

fun format_piece :: "string \<Rightarrow> string \<Rightarrow> template_piece \<Rightarrow> string" where
  "format_piece ty idx (Lit s) = s"
| "format_piece ty idx Type_field = ty"
| "format_piece ty idx Index_field = idx"

definition format_with :: "template_piece list \<Rightarrow> string \<Rightarrow> string \<Rightarrow> string" where
  "format_with template ty idx = concat (map (format_piece ty idx) template)"

definition default_format_template :: "template_piece list" where
  "default_format_template = [Type_field, Lit ''_'', Index_field]"

subsection \<open>\<open>DeterministicReplacer\<close>\<close>

record DeterministicReplacer =
  format_template :: "template_piece list"
  use_letters_for_names :: bool
  entity_map :: "(EntityType \<times> string) \<rightharpoonup> string"
  entity_counters :: "EntityType \<rightharpoonup> nat"

text \<open>The constructor, with its two arguments.\<close>

definition new_deterministic :: "template_piece list \<Rightarrow> bool \<Rightarrow> DeterministicReplacer" where
  "new_deterministic template letters =
     \<lparr>format_template = template, use_letters_for_names = letters,
      entity_map = Map.empty, entity_counters = Map.empty\<rparr>"

definition deterministic_reset :: "DeterministicReplacer \<Rightarrow> DeterministicReplacer" where
  "deterministic_reset self = self\<lparr>entity_map := Map.empty, entity_counters := Map.empty\<rparr>"

definition index_str :: "bool \<Rightarrow> EntityType \<Rightarrow> nat \<Rightarrow> string" where
  "index_str letters ty index =
     (if letters \<and> ty \<in> {PERSON, ORGANIZATION}
      then (if index \<le> 26 then [chr (64 + index)] else str_nat index)
      else str_nat index)"

definition deterministic_replace ::
  "DeterministicReplacer \<Rightarrow> string \<Rightarrow> DetectedEntity \<Rightarrow> string \<times> DeterministicReplacer" where
  "deterministic_replace self text0 entity =
     (let key = (e_type entity, lower (e_text entity)) in
      case entity_map self key of
        Some replacement \<Rightarrow> (replacement, self)
      | None \<Rightarrow>
          (let counters0 = (case entity_counters self (e_type entity) of
                              None \<Rightarrow> (entity_counters self)(e_type entity \<mapsto> 0)
                            | Some n \<Rightarrow> entity_counters self);
               index = (case counters0 (e_type entity) of None \<Rightarrow> 0 | Some n \<Rightarrow> n) + 1;
               counters1 = counters0(e_type entity \<mapsto> index);
               replacement = format_with (format_template self) (type_value (e_type entity))
                               (index_str (use_letters_for_names self) (e_type entity) index)
           in (replacement,
               self\<lparr>entity_map := (entity_map self)(key \<mapsto> replacement),
                    entity_counters := counters1\<rparr>)))"

subsection \<open>\<open>ConsistentReplacer\<close> and the strategy interface\<close>

text \<open>
  A strategy is a deterministic replacer or the consistency wrapper around a strategy; the
  wrapper holds its own map.  The synthetic and the hash replacer, which call a random
  generator and the hash library, are not modelled: the configuration of the model is the
  default one, \<open>default_strategy = 'deterministic'\<close>.
\<close>

datatype ReplacementStrategy =
  Deterministic DeterministicReplacer
| Consistent ReplacementStrategy "(EntityType \<times> string) \<rightharpoonup> string"

fun replace :: "ReplacementStrategy \<Rightarrow> string \<Rightarrow> DetectedEntity \<Rightarrow> string \<times> ReplacementStrategy" where
  "replace (Deterministic d) text0 entity =
     (case deterministic_replace d text0 entity of (replacement, d') \<Rightarrow>
        (replacement, Deterministic d'))"
| "replace (Consistent base_strategy consistency_map) text0 entity =
     (let key = (e_type entity, lower (e_text entity)) in
      case consistency_map key of
        Some replacement \<Rightarrow> (replacement, Consistent base_strategy consistency_map)
      | None \<Rightarrow>
          (case replace base_strategy text0 entity of (replacement, base') \<Rightarrow>
             (replacement, Consistent base' (consistency_map(key \<mapsto> replacement)))))"

fun reset :: "ReplacementStrategy \<Rightarrow> ReplacementStrategy" where
  "reset (Deterministic d) = Deterministic (deterministic_reset d)"
| "reset (Consistent base_strategy consistency_map) = Consistent (reset base_strategy) Map.empty"

text \<open>
  \<open>sorted(entities, key=lambda e: e.start, reverse=True)\<close>: descending, and stable, so
  entities with the same start keep their order.
\<close>

definition sorted_by_start_desc :: "DetectedEntity list \<Rightarrow> DetectedEntity list" where
  "sorted_by_start_desc ents = rev (sort_key e_start (rev ents))"

text \<open>The loop of \<open>replace_all\<close>: one splice \<open>text[:start] + replacement + text[end:]\<close> per entity.\<close>

fun replace_loop ::
  "ReplacementStrategy \<Rightarrow> string \<Rightarrow> DetectedEntity list \<Rightarrow> string \<times> ReplacementStrategy" where
  "replace_loop strategy result_text [] = (result_text, strategy)"
| "replace_loop strategy result_text (entity # rest) =
     (case replace strategy result_text entity of (replacement, strategy') \<Rightarrow>
        replace_loop strategy'
          (take (e_start entity) result_text @ replacement @ drop (e_end entity) result_text)
          rest)"

definition replace_all ::
  "ReplacementStrategy \<Rightarrow> string \<Rightarrow> DetectedEntity list \<Rightarrow> string \<times> ReplacementStrategy" where
  "replace_all strategy text0 ents = replace_loop strategy text0 (sorted_by_start_desc ents)"

text \<open>
  \<open>create_strategy('deterministic', format_template=...)\<close> and \<open>create_consistent_strategy\<close>,
  as \<open>_setup_replacement_strategy\<close> calls them: letters for names keep their default.
\<close>

definition create_deterministic :: "template_piece list \<Rightarrow> ReplacementStrategy" where
  "create_deterministic template = Deterministic (new_deterministic template True)"

definition create_consistent_deterministic :: "template_piece list \<Rightarrow> ReplacementStrategy" where
  "create_consistent_deterministic template = Consistent (create_deterministic template) Map.empty"

text \<open>
  Successive calls of \<open>replace\<close> on one deterministic replacer: the placeholders returned,
  in the order of the calls.
\<close>

fun replace_seq :: "DeterministicReplacer \<Rightarrow> DetectedEntity list \<Rightarrow> string list" where
  "replace_seq self [] = []"
| "replace_seq self (entity # rest) =
     (case deterministic_replace self [] entity of (replacement, self') \<Rightarrow>
        replacement # replace_seq self' rest)"

text \<open>The key under which a replacer remembers an entity.\<close>

definition entity_key :: "DetectedEntity \<Rightarrow> EntityType \<times> string" where
  "entity_key entity = (e_type entity, lower (e_text entity))"

text \<open>
  From a list of placeholders, one per entity, those of the first occurrences of kind \<open>K\<close>:
  the entities of kind \<open>K\<close> whose key no earlier entity of the list has.
\<close>

fun first_of_kind ::
  "EntityType \<Rightarrow> (EntityType \<times> string) list \<Rightarrow> DetectedEntity list \<Rightarrow> string list \<Rightarrow> string list" where
  "first_of_kind K seen (entity # rest) (r # rs) =
     (if e_type entity = K \<and> entity_key entity \<notin> set seen then [r] else []) @
     first_of_kind K (entity_key entity # seen) rest rs"
| "first_of_kind K seen [] rs = []"
| "first_of_kind K seen (entity # rest) [] = []"

definition alphabet :: string where
  "alphabet = ''ABCDEFGHIJKLMNOPQRSTUVWXYZ''"

section \<open>Orchestrator (\<open>pipeline/orchestrator.py\<close>)\<close>

text \<open>The filter flags of the configuration that \<open>_setup_filters\<close> reads, and their defaults.\<close>

record FilterConfig =
  cfg_normalize_text :: bool
  cfg_validate_entities :: bool
  cfg_legal_pattern_matching :: bool
  cfg_sensitivity_scoring :: bool
  cfg_lowercase :: bool
  cfg_remove_extra_whitespace :: bool
  cfg_normalize_unicode :: bool

definition default_filter_config :: FilterConfig where
  "default_filter_config =
     \<lparr>cfg_normalize_text = True, cfg_validate_entities = True,
      cfg_legal_pattern_matching = True, cfg_sensitivity_scoring = True,
      cfg_lowercase = False, cfg_remove_extra_whitespace = True, cfg_normalize_unicode = True\<rparr>"

definition setup_filters :: "FilterConfig \<Rightarrow> FilterChain" where
  "setup_filters filter_config =
     \<lparr>text_filters =
        (if cfg_normalize_text filter_config
         then [\<lambda>text0. Inr (normalize_text text0 (cfg_lowercase filter_config)
                              (cfg_remove_extra_whitespace filter_config)
                              (cfg_normalize_unicode filter_config) True)]
         else []),
      entity_filters =
        (if cfg_validate_entities filter_config then [validate_entities] else []) @
        (if cfg_sensitivity_scoring filter_config then [\<lambda>ents. Inr (sensitivity_scorer ents)] else []),
      context_filters =
        (if cfg_legal_pattern_matching filter_config
         then [\<lambda>text0 ents. Inr (legal_pattern_matcher text0 ents)] else [])\<rparr>"

text \<open>
  The initialized orchestrator: its filter chain, its one replacement strategy, shared by
  all documents, its engine (any \<open>BasePipeline\<close>, whose \<open>detect_entities\<close> may raise; none
  when loading failed) and the configured number of concurrent jobs.
\<close>

record Orchestrator =
  filter_chain :: FilterChain
  replacement_strategy :: ReplacementStrategy
  primary_engine :: "(string \<Rightarrow> py_error + DetectedEntity list) option"
  max_concurrent_jobs :: int

text \<open>The orchestrator of the default configuration, for a given engine.\<close>

definition default_orchestrator ::
  "(string \<Rightarrow> py_error + DetectedEntity list) option \<Rightarrow> Orchestrator" where
  "default_orchestrator engine =
     \<lparr>filter_chain = setup_filters default_filter_config,
      replacement_strategy = create_consistent_deterministic default_format_template,
      primary_engine = engine,
      max_concurrent_jobs = 10\<rparr>"

definition failed_result :: "string \<Rightarrow> py_error \<Rightarrow> PipelineResult" where
  "failed_result text0 e =
     \<lparr>original_text = text0, anonymized_text = text0, entities = [], success = False,
      error_message = Some e\<rparr>"

text \<open>
  \<open>process_document\<close>: every exception raised inside the \<open>try\<close> block becomes a failed
  result.  The context detected for the metadata and the timing are not modelled.
\<close>

definition process_document ::
  "Orchestrator \<Rightarrow> string \<Rightarrow> string \<Rightarrow> string \<Rightarrow> PipelineResult \<times> Orchestrator" where
  "process_document self text0 user_id document_id =
     (case apply_chain (filter_chain self) text0 None of
        Inl e \<Rightarrow> (failed_result text0 e, self)
      | Inr (filtered_text, unused) \<Rightarrow>
          (case (case primary_engine self of
                   Some engine \<Rightarrow> engine filtered_text
                 | None \<Rightarrow> Inr []) of
             Inl e \<Rightarrow> (failed_result text0 e, self)
           | Inr ents \<Rightarrow>
               (case apply_chain (filter_chain self) filtered_text (Some ents) of
                  Inl e \<Rightarrow> (failed_result text0 e, self)
                | Inr (unused_text, filtered_opt) \<Rightarrow>
                    (let filtered_entities = (case filtered_opt of None \<Rightarrow> [] | Some es \<Rightarrow> es) in
                     if filtered_entities \<noteq> [] then
                       (case replace_all (replacement_strategy self) filtered_text filtered_entities of
                          (anonymized, strategy') \<Rightarrow>
                            (\<lparr>original_text = text0, anonymized_text = anonymized,
                              entities = filtered_entities, success = True,
                              error_message = None\<rparr>,
                             self\<lparr>replacement_strategy := strategy'\<rparr>))
                     else
                       (\<lparr>original_text = text0, anonymized_text = filtered_text,
                         entities = filtered_entities, success = True, error_message = None\<rparr>,
                        self)))))"

subsection \<open>Batches\<close>








section \<open>Inputs of the scenarios\<close>

text \<open>
  Engines for the concrete scenarios below.  The first reports the one person named at the
  start of either of two documents.  The second and the third report both occurrences of
  a name, in the text of scenario S2 and in a document that opens with a legal formula.
\<close>

definition person_at :: "string \<Rightarrow> nat \<Rightarrow> nat \<Rightarrow> DetectedEntity" where
  "person_at name s e =
     \<lparr>e_text = name, e_type = PERSON, e_start = s, e_end = e, confidence = 9 / 10,
      sensitivity_level = None\<rparr>"

definition two_documents_engine :: "string \<Rightarrow> py_error + DetectedEntity list" where
  "two_documents_engine text0 =
     (if text0 = ''Mario Rossi firma.'' then Inr [person_at ''Mario Rossi'' 0 11]
      else if text0 = ''Luigi Bianchi firma.'' then Inr [person_at ''Luigi Bianchi'' 0 13]
      else Inr [])"

definition incontro_engine :: "string \<Rightarrow> py_error + DetectedEntity list" where
  "incontro_engine text0 =
     (if text0 = ''Mario Rossi ha incontrato Mario Rossi.''
      then Inr [person_at ''Mario Rossi'' 0 11, person_at ''Mario Rossi'' 26 37]
      else Inr [])"

definition ricorso_text :: string where
  "ricorso_text =
     ''Visto il ricorso di Mario Rossi, il Tribunale osserva quanto segue sulla domanda: Mario Rossi deve pagare.''"

definition ricorso_engine :: "string \<Rightarrow> py_error + DetectedEntity list" where
  "ricorso_engine text0 =
     (if text0 = ricorso_text
      then Inr [person_at ''Mario Rossi'' 20 31, person_at ''Mario Rossi'' 82 93]
      else Inr [])"

section \<open>The rewriter of the specification\<close>

text \<open>
  Section 4.8 of the specification describes the rewriter as a pure operation on the
  normalized text and spans annotated with their placeholders.  \<open>rewrite_from\<close> reads the
  spans \<open>(start, end, placeholder)\<close> from left to right: the text up to the start of a span
  is copied, the placeholder is written, and reading resumes at the end of the span.
\<close>

fun rewrite_from :: "nat \<Rightarrow> string \<Rightarrow> (nat \<times> nat \<times> string) list \<Rightarrow> string" where
  "rewrite_from pos text0 [] = drop pos text0"
| "rewrite_from pos text0 ((s, e, p) # rest) =
     take (s - pos) (drop pos text0) @ p @ rewrite_from e text0 rest"

text \<open>The spans of a list of entities with the placeholders a strategy gives them in turn.\<close>

fun placed_spans :: "ReplacementStrategy \<Rightarrow> DetectedEntity list \<Rightarrow> (nat \<times> nat \<times> string) list" where
  "placed_spans strategy [] = []"
| "placed_spans strategy (entity # rest) =
     (case replace strategy [] entity of (replacement, strategy') \<Rightarrow>
        (e_start entity, e_end entity, replacement) # placed_spans strategy' rest)"

text \<open>The non-overlap invariant of section 3: any two spans of the list are disjoint.\<close>

definition disjoint_spans :: "DetectedEntity \<Rightarrow> DetectedEntity \<Rightarrow> bool" where
  "disjoint_spans a b = (e_end a \<le> e_start b \<or> e_end b \<le> e_start a)"

definition non_overlapping :: "DetectedEntity list \<Rightarrow> bool" where
  "non_overlapping ents = sorted_wrt disjoint_spans ents"

text \<open>
  Spans listed from right to left, each one non-empty and ending at or before the start of
  its predecessor, the first one at or before \<open>bound\<close>.
\<close>

fun separated :: "nat \<Rightarrow> (nat \<times> nat \<times> string) list \<Rightarrow> bool" where
  "separated bound [] = True"
| "separated bound ((s, e, p) # rest) = (s < e \<and> e \<le> bound \<and> separated s rest)"

section \<open>Winner selection (\<open>benchmarking/selector.py\<close>)\<close>

text \<open>
  The fields of \<open>BenchmarkResult\<close> that the selector reads.  Python floats are modelled
  as real numbers, so rounding is not modelled.
\<close>

record BenchmarkResult =
  engine :: string
  f1_score :: real
  precision :: real
  recall :: real
  p95_latency_ms :: int

record WinnerSelector =
  weight_f1_score :: real
  weight_p95_latency :: real
  weight_precision :: real
  weight_recall :: real
  latency_target_ms :: int

text \<open>The constructor: default weights, and \<open>ValueError\<close> unless the weights sum to 1 within 0.01.\<close>

definition new_winner_selector ::
  "(real \<times> real \<times> real \<times> real) option \<Rightarrow> int \<Rightarrow> py_error + WinnerSelector" where
  "new_winner_selector weights target =
     (case (case weights of
              None \<Rightarrow> (5 / 10, 3 / 10, 1 / 10, 1 / 10)
            | Some w \<Rightarrow> w) of
        (w1, w2, w3, w4) \<Rightarrow>
          if \<bar>(w1 + w2 + w3 + w4) - 1\<bar> > 1 / 100 then Inl ValueError
          else Inr \<lparr>weight_f1_score = w1, weight_p95_latency = w2, weight_precision = w3,
                    weight_recall = w4, latency_target_ms = target\<rparr>)"












section \<open>Notions for the proof of idempotence\<close>

text \<open>A text without tabs and without two spaces in a row: \<open>sub_blanks\<close> leaves it as it is.\<close>

fun blank_normal :: "string \<Rightarrow> bool" where
  "blank_normal [] = True"
| "blank_normal (c # cs) =
     (c \<noteq> CHR 0x09 \<and> \<not> (c = CHR '' '' \<and> cs \<noteq> [] \<and> hd cs = CHR '' '') \<and> blank_normal cs)"

text \<open>A text in which no newline starts a match of \<open>\n\s+\n\<close>.\<close>

fun newline_stable :: "string \<Rightarrow> bool" where
  "newline_stable [] = True"
| "newline_stable (c # cs) =
     (\<not> (c = CHR 0x0A \<and> blank_lines_match cs \<noteq> None) \<and> newline_stable cs)"

section \<open>Cache keys (\<open>cache/cache_manager.py\<close>)\<close>

subsection \<open>The hash function of the library\<close>

text \<open>
  \<open>hashlib.sha256\<close> is the SHA-256 of FIPS 180-4, on 32-bit words: the message is padded
  with the byte \<open>0x80\<close>, zero bytes and its length in bits as a 64-bit number, and cut into
  blocks of sixteen big-endian words; each block is expanded to sixty-four words and run
  through sixty-four rounds.  The round constants and the initial hash value are written in
  decimal.
\<close>

definition sha256_K :: "32 word list" where
  "sha256_K =
     [
      1116352408, 1899447441, 3049323471, 3921009573, 961987163, 1508970993,
      2453635748, 2870763221, 3624381080, 310598401, 607225278, 1426881987,
      1925078388, 2162078206, 2614888103, 3248222580, 3835390401, 4022224774,
      264347078, 604807628, 770255983, 1249150122, 1555081692, 1996064986,
      2554220882, 2821834349, 2952996808, 3210313671, 3336571891, 3584528711,
      113926993, 338241895, 666307205, 773529912, 1294757372, 1396182291,
      1695183700, 1986661051, 2177026350, 2456956037, 2730485921, 2820302411,
      3259730800, 3345764771, 3516065817, 3600352804, 4094571909, 275423344,
      430227734, 506948616, 659060556, 883997877, 958139571, 1322822218,
      1537002063, 1747873779, 1955562222, 2024104815, 2227730452, 2361852424,
      2428436474, 2756734187, 3204031479, 3329325298]"

definition sha256_H0 :: "32 word list" where
  "sha256_H0 =
     [
      1779033703, 3144134277, 1013904242, 2773480762, 1359893119, 2600822924,
      528734635, 1541459225]"

definition rotr :: "nat \<Rightarrow> 32 word \<Rightarrow> 32 word" where
  "rotr n x = word_rotr n x"

definition Ch :: "32 word \<Rightarrow> 32 word \<Rightarrow> 32 word \<Rightarrow> 32 word" where
  "Ch x y z = (x AND y) XOR (NOT x AND z)"

definition Maj :: "32 word \<Rightarrow> 32 word \<Rightarrow> 32 word \<Rightarrow> 32 word" where
  "Maj x y z = (x AND y) XOR (x AND z) XOR (y AND z)"

definition big_sigma0 :: "32 word \<Rightarrow> 32 word" where
  "big_sigma0 x = rotr 2 x XOR rotr 13 x XOR rotr 22 x"

definition big_sigma1 :: "32 word \<Rightarrow> 32 word" where
  "big_sigma1 x = rotr 6 x XOR rotr 11 x XOR rotr 25 x"

definition small_sigma0 :: "32 word \<Rightarrow> 32 word" where
  "small_sigma0 x = rotr 7 x XOR rotr 18 x XOR drop_bit 3 x"

definition small_sigma1 :: "32 word \<Rightarrow> 32 word" where
  "small_sigma1 x = rotr 17 x XOR rotr 19 x XOR drop_bit 10 x"

text \<open>The padded message, as bytes.\<close>

definition sha256_pad :: "nat list \<Rightarrow> nat list" where
  "sha256_pad m =
     m @ [128] @ replicate ((64 - (length m + 9) mod 64) mod 64) 0 @
     map (\<lambda>i. (8 * length m) div 256 ^ (7 - i) mod 256) [0..<8]"

text \<open>Big-endian words of a block of bytes.\<close>

fun be_words :: "nat list \<Rightarrow> 32 word list" where
  "be_words (a # b # c # d # rest) =
     word_of_nat (((a * 256 + b) * 256 + c) * 256 + d) # be_words rest"
| "be_words rest = []"

text \<open>The message schedule: \<open>n\<close> more words after the ones at hand.\<close>

fun schedule :: "nat \<Rightarrow> 32 word list \<Rightarrow> 32 word list" where
  "schedule 0 w = w"
| "schedule (Suc n) w =
     (let t = length w in
      schedule n
        (w @ [small_sigma1 (w ! (t - 2)) + w ! (t - 7) + small_sigma0 (w ! (t - 15)) + w ! (t - 16)]))"

type_synonym sha_state =
  "32 word \<times> 32 word \<times> 32 word \<times> 32 word \<times> 32 word \<times> 32 word \<times> 32 word \<times> 32 word"

definition sha256_round :: "sha_state \<Rightarrow> 32 word \<times> 32 word \<Rightarrow> sha_state" where
  "sha256_round st kw =
     (case st of (a, b, c, d, e, f, g, h) \<Rightarrow>
        (let t1 = h + big_sigma1 e + Ch e f g + fst kw + snd kw;
             t2 = big_sigma0 a + Maj a b c
         in (t1 + t2, a, b, c, d + t1, e, f, g)))"

definition sha256_block :: "32 word list \<Rightarrow> nat list \<Rightarrow> 32 word list" where
  "sha256_block hs block =
     (let w = schedule 48 (be_words block);
          st0 = (hs ! 0, hs ! 1, hs ! 2, hs ! 3, hs ! 4, hs ! 5, hs ! 6, hs ! 7)
      in case foldl sha256_round st0 (zip sha256_K w) of
           (a, b, c, d, e, f, g, h) \<Rightarrow> map2 (+) hs [a, b, c, d, e, f, g, h])"

function sha256_blocks :: "32 word list \<Rightarrow> nat list \<Rightarrow> 32 word list" where
  "sha256_blocks hs m =
     (if length m < 64 then hs else sha256_blocks (sha256_block hs (take 64 m)) (drop 64 m))"
  by pat_completeness auto
termination
  by (relation "measure (\<lambda>(hs, m). length m)") auto

definition hex_digit :: "nat \<Rightarrow> char" where
  "hex_digit n = ''0123456789abcdef'' ! n"

definition hex_word :: "32 word \<Rightarrow> string" where
  "hex_word x = map (\<lambda>i. hex_digit (unat x div 16 ^ (7 - i) mod 16)) [0..<8]"

text \<open>\<open>hashlib.sha256(data).hexdigest()\<close>.\<close>

definition sha256_hexdigest :: "nat list \<Rightarrow> string" where
  "sha256_hexdigest m = concat (map hex_word (sha256_blocks sha256_H0 (sha256_pad m)))"

text \<open>\<open>s.encode()\<close>: UTF-8, one byte below U+0080 and two bytes from there to U+00FF.\<close>

definition utf8_char :: "char \<Rightarrow> nat list" where
  "utf8_char c =
     (let n = (of_char c :: nat) in
      if n < 128 then [n] else [192 + n div 64, 128 + n mod 64])"

definition encode :: "string \<Rightarrow> nat list" where
  "encode s = concat (map utf8_char s)"

subsection \<open>The fingerprint\<close>

text \<open>The formatted string \<open>f"{text}|{engine_name}|{config_hash}"\<close>.\<close>

definition key_data :: "string \<Rightarrow> string \<Rightarrow> string \<Rightarrow> string" where
  "key_data text0 engine_name config_hash = text0 @ ''|'' @ engine_name @ ''|'' @ config_hash"

definition generate_cache_key :: "string \<Rightarrow> string \<Rightarrow> string \<Rightarrow> string" where
  "generate_cache_key text0 engine_name config_hash =
     (let doc_hash = take 16 (sha256_hexdigest (encode (key_data text0 engine_name config_hash)))
      in ''privacy:doc:'' @ doc_hash)"

section \<open>Properties of the validators\<close>

lemma validate_result_leading_zero:
  "validate_result (CHR ''0'' # rest) = Inr False"
  by (simp add: validate_result_def)

text \<open>
  Claim C3.  The scenario code \<open>RSSMRA85T10A562S\<close> passes the recognizer's checksum
  (the sum over its first fifteen characters is 122, and 122 mod 26 = 18 is the letter S),
  but the filter-chain validator computes 114 with its own odd-position table, expects the
  letter K and rejects the code.
\<close>

theorem fiscal_code_S1_filter_rejects_recognizer_accepts:
  "validate_italian_fiscal_code ''RSSMRA85T10A562S'' = Inr False \<and>
   validate_cf_checksum ''RSSMRA85T10A562S'' = True \<and>
   cf_total 0 (enumerate 0 (take 15 ''RSSMRA85T10A562S'')) = Inr 114 \<and>
   recognizer_cf_total 0 (enumerate 0 (take 15 ''RSSMRA85T10A562S'')) = 122"
  by code_simp

text \<open>
  Claim C7.  The filter-chain validator has no test of the first character: the eleven
  zeros have check digit 0 and are accepted, while the recognizer rejects them.
\<close>

theorem vat_leading_zero_accepted_by_filter:
  "validate_italian_vat ''00000000000'' = Inr True \<and>
   validate_result ''00000000000'' = Inr False"
  by code_simp

section \<open>Containment\<close>

lemma startswith_iff_prefix: "startswith s p \<longleftrightarrow> prefix p s"
  by (induction s p rule: startswith.induct) auto

lemma contains_iff_sublist: "contains s p \<longleftrightarrow> sublist p s"
proof (induction s)
  case Nil
  then show ?case by simp
next
  case (Cons c cs)
  then show ?case
    by (simp add: startswith_iff_prefix sublist_Cons_right)
qed

lemma contains_iff: "contains s p \<longleftrightarrow> (\<exists>a b. s = a @ p @ b)"
  by (simp add: contains_iff_sublist sublist_def)

section \<open>Context detection\<close>



section \<open>The strategy shared by successive documents\<close>

text \<open>
  Claim C2.  Neither \<open>process_document\<close> nor \<open>replace_all\<close> calls \<open>reset\<close>, so the maps of
  the one strategy of the orchestrator survive a document.  With the default configuration,
  the document \<open>Luigi Bianchi firma.\<close> becomes \<open>PERSON_A firma.\<close> when it is processed
  first and \<open>PERSON_B firma.\<close> when it follows \<open>Mario Rossi firma.\<close>; a reset in between
  gives \<open>PERSON_A\<close> again.
\<close>

theorem placeholders_carry_over_between_documents:
  "anonymized_text (fst (process_document (default_orchestrator (Some two_documents_engine))
      ''Luigi Bianchi firma.'' ''user'' ''doc2'')) = ''PERSON_A firma.'' \<and>
   anonymized_text (fst (process_document
      (snd (process_document (default_orchestrator (Some two_documents_engine))
              ''Mario Rossi firma.'' ''user'' ''doc1''))
      ''Luigi Bianchi firma.'' ''user'' ''doc2'')) = ''PERSON_B firma.'' \<and>
   fst (replace_all
      (reset (replacement_strategy
         (snd (process_document (default_orchestrator (Some two_documents_engine))
                 ''Mario Rossi firma.'' ''user'' ''doc1''))))
      ''Luigi Bianchi firma.'' [person_at ''Luigi Bianchi'' 0 13]) = ''PERSON_A firma.''"
  by code_simp

section \<open>Leakage\<close>

text \<open>
  The no-leakage property as stated in claim C1 fails.  The engine reports both occurrences
  of \<open>Mario Rossi\<close>; the legal-formula filter drops the first one, whose window holds
  \<open>visto il\<close>, and keeps the second.  The result is successful, its only span has the text
  \<open>Mario Rossi\<close>, and the anonymized text still contains \<open>Mario Rossi\<close>.
\<close>

theorem leakage_counterexample:
  "success (fst (process_document (default_orchestrator (Some ricorso_engine))
      ricorso_text ''user'' ''doc'')) \<and>
   map e_text (entities (fst (process_document (default_orchestrator (Some ricorso_engine))
      ricorso_text ''user'' ''doc''))) = [''Mario Rossi''] \<and>
   anonymized_text (fst (process_document (default_orchestrator (Some ricorso_engine))
      ricorso_text ''user'' ''doc'')) =
     ''Visto il ricorso di Mario Rossi, il Tribunale osserva quanto segue sulla domanda: PERSON_A deve pagare.'' \<and>
   contains (anonymized_text (fst (process_document (default_orchestrator (Some ricorso_engine))
      ricorso_text ''user'' ''doc''))) ''Mario Rossi''"
  by code_simp

section \<open>Deterministic placeholders\<close>

lemma deterministic_replace_seen:
  assumes "entity_map self (entity_key entity) = Some r"
  shows "deterministic_replace self text0 entity = (r, self)"
  using assms by (simp add: deterministic_replace_def entity_key_def)

lemma deterministic_replace_new:
  assumes "entity_map self (entity_key entity) = None"
  shows "deterministic_replace self text0 entity =
    (format_with (format_template self) (type_value (e_type entity))
       (index_str (use_letters_for_names self) (e_type entity)
          (Suc (case entity_counters self (e_type entity) of None \<Rightarrow> 0 | Some n \<Rightarrow> n))),
     self\<lparr>entity_map := (entity_map self)(entity_key entity \<mapsto>
            format_with (format_template self) (type_value (e_type entity))
              (index_str (use_letters_for_names self) (e_type entity)
                 (Suc (case entity_counters self (e_type entity) of None \<Rightarrow> 0 | Some n \<Rightarrow> n)))),
          entity_counters := (entity_counters self)(e_type entity \<mapsto>
            Suc (case entity_counters self (e_type entity) of None \<Rightarrow> 0 | Some n \<Rightarrow> n))\<rparr>)"
  using assms
  by (cases "entity_counters self (e_type entity)")
     (simp_all add: deterministic_replace_def entity_key_def Let_def)

lemma card_keys_insert:
  assumes "k \<notin> set seen"
  shows "card {k' \<in> set (k # seen). fst k' = T} =
         (if fst k = T then Suc (card {k' \<in> set seen. fst k' = T})
          else card {k' \<in> set seen. fst k' = T})"
proof (cases "fst k = T")
  case True
  have eq: "{k' \<in> set (k # seen). fst k' = T} = insert k {k' \<in> set seen. fst k' = T}"
    using True by auto
  have "k \<notin> {k' \<in> set seen. fst k' = T}" using assms by simp
  then show ?thesis using True by (simp only: eq) simp
next
  case False
  have "{k' \<in> set (k # seen). fst k' = T} = {k' \<in> set seen. fst k' = T}"
    using False by auto
  then show ?thesis using False by simp
qed

lemma replace_seq_first_of_kind:
  assumes "format_template self = tmpl" and "use_letters_for_names self = letters"
    and "\<forall>k. (entity_map self k \<noteq> None) = (k \<in> set seen)"
    and "\<forall>T. (case entity_counters self T of None \<Rightarrow> 0 | Some n \<Rightarrow> n) =
             card {k \<in> set seen. fst k = T}"
  shows "first_of_kind K seen es (replace_seq self es) =
         map (\<lambda>j. format_with tmpl (type_value K) (index_str letters K j))
           [Suc (card {k \<in> set seen. fst k = K}) ..<
            Suc (card {k \<in> set seen. fst k = K}) +
              length (first_of_kind K seen es (replace_seq self es))]"
  using assms
proof (induction es arbitrary: self seen)
  case Nil
  then show ?case by simp
next
  case (Cons e es)
  let ?f = "\<lambda>j. format_with tmpl (type_value K) (index_str letters K j)"
  let ?c = "card {k \<in> set seen. fst k = K}"
  let ?c' = "card {k \<in> set (entity_key e # seen). fst k = K}"
  show ?case
  proof (cases "entity_key e \<in> set seen")
    case True
    with Cons.prems(3) have "entity_map self (entity_key e) \<noteq> None" by blast
    then obtain r where r: "entity_map self (entity_key e) = Some r" by auto
    have set_eq: "set (entity_key e # seen) = set seen" using True by auto
    have inv1: "\<forall>k. (entity_map self k \<noteq> None) = (k \<in> set (entity_key e # seen))"
      unfolding set_eq by (rule Cons.prems(3))
    have inv2: "\<forall>T. (case entity_counters self T of None \<Rightarrow> 0 | Some n \<Rightarrow> n) =
                  card {k \<in> set (entity_key e # seen). fst k = T}"
      unfolding set_eq by (rule Cons.prems(4))
    have lhs: "first_of_kind K seen (e # es) (replace_seq self (e # es)) =
               first_of_kind K (entity_key e # seen) es (replace_seq self es)"
      using True by (simp add: deterministic_replace_seen [OF r])
    have c_eq: "?c' = ?c" by (simp only: set_eq)
    show ?thesis
      unfolding lhs c_eq [symmetric]
      by (rule Cons.IH [OF Cons.prems(1) Cons.prems(2) inv1 inv2])
  next
    case False
    with Cons.prems(3) have none: "entity_map self (entity_key e) = None" by blast
    let ?n = "case entity_counters self (e_type e) of None \<Rightarrow> 0 | Some n \<Rightarrow> n"
    let ?r = "format_with (format_template self) (type_value (e_type e))
                (index_str (use_letters_for_names self) (e_type e) (Suc ?n))"
    let ?self' = "self\<lparr>entity_map := (entity_map self)(entity_key e \<mapsto> ?r),
                      entity_counters := (entity_counters self)(e_type e \<mapsto> Suc ?n)\<rparr>"
    let ?X = "first_of_kind K (entity_key e # seen) es (replace_seq ?self' es)"
    have step: "deterministic_replace self [] e = (?r, ?self')"
      by (rule deterministic_replace_new [OF none])
    have fst_key: "fst (entity_key e) = e_type e" by (simp add: entity_key_def)
    have p1: "format_template ?self' = tmpl" using Cons.prems(1) by simp
    have p2: "use_letters_for_names ?self' = letters" using Cons.prems(2) by simp
    have inv1: "\<forall>k. (entity_map ?self' k \<noteq> None) = (k \<in> set (entity_key e # seen))"
      using Cons.prems(3) by auto
    have inv2: "\<forall>T. (case entity_counters ?self' T of None \<Rightarrow> 0 | Some n \<Rightarrow> n) =
                  card {k \<in> set (entity_key e # seen). fst k = T}"
    proof
      fix T
      show "(case entity_counters ?self' T of None \<Rightarrow> 0 | Some n \<Rightarrow> n) =
            card {k \<in> set (entity_key e # seen). fst k = T}"
        using Cons.prems(4) [rule_format, of T] Cons.prems(4) [rule_format, of "e_type e"]
          card_keys_insert [OF False, of T]
        by (simp add: fst_key)
    qed
    have n_eq: "?n = card {k \<in> set seen. fst k = e_type e}"
      using Cons.prems(4) by simp
    have IH: "?X = map ?f [Suc ?c' ..< Suc ?c' + length ?X]"
      by (rule Cons.IH [OF p1 p2 inv1 inv2])
    show ?thesis
    proof (cases "e_type e = K")
      case True
      have c': "?c' = Suc ?c"
        using True card_keys_insert [OF False, of K] by (simp add: fst_key)
      have r_eq: "?r = ?f (Suc ?c)"
        using True n_eq Cons.prems(1) Cons.prems(2) by simp
      have lhs: "first_of_kind K seen (e # es) (replace_seq self (e # es)) = ?f (Suc ?c) # ?X"
        using False True r_eq by (simp add: step)
      have "map ?f [Suc ?c ..< Suc ?c + length (?f (Suc ?c) # ?X)] =
            ?f (Suc ?c) # map ?f [Suc (Suc ?c) ..< Suc (Suc ?c) + length ?X]"
        by (simp add: upt_conv_Cons del: upt_Suc)
      also have "\<dots> = ?f (Suc ?c) # ?X"
        using IH unfolding c' by simp
      finally show ?thesis unfolding lhs by simp
    next
      case neq: False
      have c': "?c' = ?c"
        using neq card_keys_insert [OF False, of K] by (simp add: fst_key)
      have lhs: "first_of_kind K seen (e # es) (replace_seq self (e # es)) = ?X"
        using False neq by (simp add: step)
      show ?thesis
        unfolding lhs using IH unfolding c' .
    qed
  qed
qed

lemma chr_alphabet_all: "list_all (\<lambda>j. chr (64 + j) = alphabet ! (j - 1)) [1..<27]"
  by code_simp

lemma chr_alphabet:
  assumes "1 \<le> j" and "j \<le> 26"
  shows "chr (64 + j) = alphabet ! (j - 1)"
proof -
  have "j \<in> set [1..<27]" using assms by simp
  with chr_alphabet_all show ?thesis
    unfolding list_all_iff by blast
qed

text \<open>
  Claim C6.  A fresh deterministic replacer with the default template and letters for
  names is called on the entities \<open>es\<close>, one after the other.  The placeholders returned
  for the first occurrences of kind \<open>K\<close>, in the order of the calls, are the tag of \<open>K\<close>,
  an underscore and the index 1, 2, 3, \<open>\<dots>\<close>, written as the letter A to Z up to 26 and
  in decimal from 27 when \<open>K\<close> is \<open>PERSON\<close> or \<open>ORGANIZATION\<close>, and in decimal otherwise.
\<close>

theorem deterministic_placeholder_sequence:
  "first_of_kind K [] es (replace_seq (new_deterministic default_format_template True) es) =
   map (\<lambda>j. type_value K @ ''_'' @
             (if K = PERSON \<or> K = ORGANIZATION
              then (if j \<le> 26 then [alphabet ! (j - 1)] else str_nat j)
              else str_nat j))
     [1 ..< Suc (length (first_of_kind K [] es
                    (replace_seq (new_deterministic default_format_template True) es)))]"
proof -
  let ?self = "new_deterministic default_format_template True"
  have t1: "format_template ?self = default_format_template"
    by (simp add: new_deterministic_def)
  have t2: "use_letters_for_names ?self = True"
    by (simp add: new_deterministic_def)
  have inv1: "\<forall>k. (entity_map ?self k \<noteq> None) = (k \<in> set [])"
    by (simp add: new_deterministic_def)
  have inv2: "\<forall>T. (case entity_counters ?self T of None \<Rightarrow> 0 | Some n \<Rightarrow> n) =
               card {k \<in> set ([] :: (EntityType \<times> string) list). fst k = T}"
    by (simp add: new_deterministic_def)
  have render: "format_with default_format_template (type_value K) (index_str True K j) =
                type_value K @ ''_'' @
                  (if K = PERSON \<or> K = ORGANIZATION
                   then (if j \<le> 26 then [alphabet ! (j - 1)] else str_nat j)
                   else str_nat j)"
    if "1 \<le> j" for j
    using that chr_alphabet [of j]
    by (simp add: default_format_template_def format_with_def index_str_def
        del: str_nat.simps)
  have "first_of_kind K [] es (replace_seq ?self es) =
        map (\<lambda>j. format_with default_format_template (type_value K) (index_str True K j))
          [1 ..< Suc (length (first_of_kind K [] es (replace_seq ?self es)))]"
    using replace_seq_first_of_kind [OF t1 t2 inv1 inv2, of K es] by simp
  also have "\<dots> =
        map (\<lambda>j. type_value K @ ''_'' @
                  (if K = PERSON \<or> K = ORGANIZATION
                   then (if j \<le> 26 then [alphabet ! (j - 1)] else str_nat j)
                   else str_nat j))
          [1 ..< Suc (length (first_of_kind K [] es (replace_seq ?self es)))]"
  proof (rule map_cong [OF refl])
    fix j
    assume "j \<in> set [1 ..< Suc (length (first_of_kind K [] es (replace_seq ?self es)))]"
    then have "1 \<le> j" by (simp del: upt_Suc)
    then show "format_with default_format_template (type_value K) (index_str True K j) =
               type_value K @ ''_'' @
                 (if K = PERSON \<or> K = ORGANIZATION
                  then (if j \<le> 26 then [alphabet ! (j - 1)] else str_nat j)
                  else str_nat j)"
      by (rule render)
  qed
  finally show ?thesis .
qed

lemma deterministic_placeholder_sequence_example:
  "replace_seq (new_deterministic default_format_template True)
     (map (\<lambda>n. person_at (str_nat n) 0 1) [0..<28] @
      [\<lparr>e_text = ''RSSMRA85T10A562S'', e_type = FISCAL_CODE, e_start = 0, e_end = 16,
        confidence = 1, sensitivity_level = None\<rparr>, person_at ''3'' 0 1]) =
   [''PERSON_A'', ''PERSON_B'', ''PERSON_C'', ''PERSON_D'', ''PERSON_E'', ''PERSON_F'',
    ''PERSON_G'', ''PERSON_H'', ''PERSON_I'', ''PERSON_J'', ''PERSON_K'', ''PERSON_L'',
    ''PERSON_M'', ''PERSON_N'', ''PERSON_O'', ''PERSON_P'', ''PERSON_Q'', ''PERSON_R'',
    ''PERSON_S'', ''PERSON_T'', ''PERSON_U'', ''PERSON_V'', ''PERSON_W'', ''PERSON_X'',
    ''PERSON_Y'', ''PERSON_Z'', ''PERSON_27'', ''PERSON_28'', ''CF_1'', ''PERSON_D'']"
  by code_simp

section \<open>Rewriting the detected spans\<close>

lemma deterministic_replace_text_independent:
  "deterministic_replace d t entity = deterministic_replace d t' entity"
  by (simp add: deterministic_replace_def)

lemma replace_text_independent:
  "replace strategy t entity = replace strategy t' entity"
proof (induction strategy)
  case (Deterministic d)
  show ?case
    using deterministic_replace_text_independent [of d t entity t'] by simp
next
  case (Consistent base cmap)
  then show ?case by (simp add: Let_def split: option.splits)
qed

lemma replace_loop_foldl:
  "fst (replace_loop strategy text0 ds) =
   foldl (\<lambda>t (s, e, p). take s t @ p @ drop e t) text0 (placed_spans strategy ds)"
proof (induction ds arbitrary: strategy text0)
  case Nil
  then show ?case by simp
next
  case (Cons d ds)
  obtain r strategy' where step: "replace strategy [] d = (r, strategy')"
    by (cases "replace strategy [] d")
  then have step': "replace strategy text0 d = (r, strategy')"
    using replace_text_independent [of strategy text0 d "[]"] by simp
  show ?case
    by (simp add: step step' Cons.IH)
qed

lemma separated_mono:
  "separated b spans \<Longrightarrow> b \<le> b' \<Longrightarrow> separated b' spans"
  by (cases spans) auto

lemma separated_starts:
  "separated b spans \<Longrightarrow> \<forall>x \<in> set spans. fst x \<le> b"
proof (induction spans arbitrary: b)
  case Nil
  then show ?case by simp
next
  case (Cons x spans)
  obtain s e p where x: "x = (s, e, p)" by (cases x)
  from Cons.prems x have "s < e" "e \<le> b" "separated s spans" by simp_all
  with Cons.IH [of s] show ?case using x by fastforce
qed

lemma foldl_splice_append:
  "separated (length u) spans \<Longrightarrow>
   foldl (\<lambda>t (s, e, p). take s t @ p @ drop e t) (u @ v) spans =
   foldl (\<lambda>t (s, e, p). take s t @ p @ drop e t) u spans @ v"
proof (induction spans arbitrary: u)
  case Nil
  then show ?case by simp
next
  case (Cons x spans)
  obtain s e p where x: "x = (s, e, p)" by (cases x)
  from Cons.prems x have se: "s < e" "e \<le> length u" and sep: "separated s spans"
    by simp_all
  let ?u' = "take s u @ p @ drop e u"
  have "s \<le> length ?u'" using se by simp
  with sep have sep': "separated (length ?u') spans" by (rule separated_mono)
  have "take s (u @ v) @ p @ drop e (u @ v) = ?u' @ v" using se by simp
  then show ?case
    using Cons.IH [OF sep'] x by simp
qed

lemma rewrite_from_snoc:
  "\<forall>x \<in> set xs. fst x \<le> s \<Longrightarrow>
   rewrite_from pos text0 (xs @ [(s, e, p)]) =
   rewrite_from pos (take s text0) xs @ p @ drop e text0"
proof (induction xs arbitrary: pos)
  case Nil
  show ?case by (simp add: drop_take)
next
  case (Cons x xs)
  obtain s1 e1 p1 where x: "x = (s1, e1, p1)" by (cases x)
  from Cons.prems x have le: "s1 \<le> s" and rest: "\<forall>x \<in> set xs. fst x \<le> s"
    by simp_all
  have "take (s1 - pos) (drop pos (take s text0)) = take (s1 - pos) (drop pos text0)"
    using le by (simp add: drop_take min_def)
  then show ?case
    using Cons.IH [OF rest, of e1] x by simp
qed

lemma foldl_splice_rewrite:
  "separated b spans \<Longrightarrow> b \<le> length text0 \<Longrightarrow>
   foldl (\<lambda>t (s, e, p). take s t @ p @ drop e t) text0 spans = rewrite_from 0 text0 (rev spans)"
proof (induction spans arbitrary: b text0)
  case Nil
  then show ?case by simp
next
  case (Cons x spans)
  obtain s e p where x: "x = (s, e, p)" by (cases x)
  from Cons.prems x have se: "s < e" "e \<le> b" and sep: "separated s spans"
    by simp_all
  have s_len: "s \<le> length text0" using se Cons.prems(2) by simp
  have len: "length (take s text0) = s" using s_len by simp
  have sep_u: "separated (length (take s text0)) spans" using sep len by simp
  have starts: "\<forall>x \<in> set (rev spans). fst x \<le> s"
    using separated_starts [OF sep] by simp
  have "foldl (\<lambda>t (s, e, p). take s t @ p @ drop e t) text0 (x # spans) =
        foldl (\<lambda>t (s, e, p). take s t @ p @ drop e t) (take s text0 @ (p @ drop e text0)) spans"
    using x by simp
  also have "\<dots> = foldl (\<lambda>t (s, e, p). take s t @ p @ drop e t) (take s text0) spans @
                   (p @ drop e text0)"
    by (rule foldl_splice_append [OF sep_u])
  also have "\<dots> = rewrite_from 0 (take s text0) (rev spans) @ p @ drop e text0"
    using Cons.IH [OF sep, of "take s text0"] len by simp
  also have "\<dots> = rewrite_from 0 text0 (rev spans @ [(s, e, p)])"
    by (rule rewrite_from_snoc [OF starts, symmetric])
  finally show ?case using x by simp
qed

lemma sorted_wrt_disjoint_distinct:
  "sorted_wrt disjoint_spans ents \<Longrightarrow> \<forall>a \<in> set ents. e_start a < e_end a \<Longrightarrow> distinct ents"
proof (induction ents)
  case Nil
  then show ?case by simp
next
  case (Cons a ents)
  have "a \<notin> set ents"
  proof
    assume "a \<in> set ents"
    with Cons.prems(1) have "disjoint_spans a a" by simp
    with Cons.prems(2) show False by (simp add: disjoint_spans_def)
  qed
  with Cons show ?case by simp
qed

lemma sorted_wrt_disjoint_pairs:
  "sorted_wrt disjoint_spans ents \<Longrightarrow> a \<in> set ents \<Longrightarrow> b \<in> set ents \<Longrightarrow> a \<noteq> b \<Longrightarrow>
   disjoint_spans a b"
proof (induction ents)
  case Nil
  then show ?case by simp
next
  case (Cons x ents)
  then show ?case by (auto simp: disjoint_spans_def)
qed

lemma placed_spans_separated:
  assumes "distinct ds"
    and "\<And>a b. a \<in> set ds \<Longrightarrow> b \<in> set ds \<Longrightarrow> a \<noteq> b \<Longrightarrow> disjoint_spans a b"
    and "sorted_wrt (\<lambda>a b. e_start b \<le> e_start a) ds"
    and "\<forall>a \<in> set ds. e_start a < e_end a \<and> e_end a \<le> bound"
  shows "separated bound (placed_spans strategy ds)"
  using assms
proof (induction ds arbitrary: bound strategy)
  case Nil
  then show ?case by simp
next
  case (Cons d ds)
  obtain r strategy' where step: "replace strategy [] d = (r, strategy')"
    by (cases "replace strategy [] d")
  have inner: "\<forall>a \<in> set ds. e_start a < e_end a \<and> e_end a \<le> e_start d"
  proof
    fix a
    assume a: "a \<in> set ds"
    then have "a \<noteq> d" using Cons.prems(1) by auto
    then have "disjoint_spans d a" using Cons.prems(2) [of d a] a by simp
    moreover have "e_start a \<le> e_start d" using Cons.prems(3) a by simp
    moreover have "e_start d < e_end d" "e_start a < e_end a" using Cons.prems(4) a by simp_all
    ultimately show "e_start a < e_end a \<and> e_end a \<le> e_start d"
      by (auto simp: disjoint_spans_def)
  qed
  have "separated (e_start d) (placed_spans strategy' ds)"
    using Cons.prems by (intro Cons.IH inner) auto
  then show ?case
    using Cons.prems(4) by (simp add: step)
qed

lemma sorted_by_start_desc_props:
  "set (sorted_by_start_desc ents) = set ents"
  "distinct (sorted_by_start_desc ents) = distinct ents"
  "sorted_wrt (\<lambda>a b. e_start b \<le> e_start a) (sorted_by_start_desc ents)"
proof -
  show "set (sorted_by_start_desc ents) = set ents"
    by (simp add: sorted_by_start_desc_def)
  show "distinct (sorted_by_start_desc ents) = distinct ents"
    by (simp add: sorted_by_start_desc_def)
  have "sorted (map e_start (sort_key e_start (rev ents)))" by simp
  then have "sorted_wrt (\<lambda>a b. e_start a \<le> e_start b) (sort_key e_start (rev ents))"
    by (simp add: sorted_map)
  then show "sorted_wrt (\<lambda>a b. e_start b \<le> e_start a) (sorted_by_start_desc ents)"
    by (simp add: sorted_by_start_desc_def sorted_wrt_rev)
qed

lemma replace_all_rewrites:
  assumes "non_overlapping ents"
    and "\<forall>a \<in> set ents. e_start a < e_end a \<and> e_end a \<le> length text0"
  shows "fst (replace_all strategy text0 ents) =
         rewrite_from 0 text0 (rev (placed_spans strategy (sorted_by_start_desc ents)))"
proof -
  let ?ds = "sorted_by_start_desc ents"
  have sw: "sorted_wrt disjoint_spans ents" using assms(1) by (simp add: non_overlapping_def)
  have dist: "distinct ?ds"
    using sorted_wrt_disjoint_distinct [OF sw] assms(2)
    by (simp add: sorted_by_start_desc_props)
  have pairs: "\<And>a b. a \<in> set ?ds \<Longrightarrow> b \<in> set ?ds \<Longrightarrow> a \<noteq> b \<Longrightarrow> disjoint_spans a b"
    using sorted_wrt_disjoint_pairs [OF sw] by (simp add: sorted_by_start_desc_props)
  have range: "\<forall>a \<in> set ?ds. e_start a < e_end a \<and> e_end a \<le> length text0"
    using assms(2) by (simp add: sorted_by_start_desc_props)
  have "separated (length text0) (placed_spans strategy ?ds)"
    by (rule placed_spans_separated [OF dist pairs sorted_by_start_desc_props(3) range])
  then have "foldl (\<lambda>t (s, e, p). take s t @ p @ drop e t) text0 (placed_spans strategy ?ds) =
             rewrite_from 0 text0 (rev (placed_spans strategy ?ds))"
    by (rule foldl_splice_rewrite) simp
  then show ?thesis
    by (simp add: replace_all_def replace_loop_foldl)
qed

lemma process_document_success:
  assumes "process_document self text0 user_id document_id = (result, self')"
    and "success result"
    and "apply_text_filters (filter_chain self) text0 = Inr filtered_text"
  shows "anonymized_text result =
         fst (replace_all (replacement_strategy self) filtered_text (entities result))"
  using assms
  by (auto simp: process_document_def apply_chain_def failed_result_def Let_def
      replace_all_def sorted_by_start_desc_def
      split: sum.splits option.splits prod.splits if_splits)

text \<open>
  Claim C1, as amended.  A successful \<open>process_document\<close> returns the filtered (normalized)
  text in which the range of every span of the result holds the placeholder of the span,
  and every character outside the spans is kept, provided the spans lie inside the
  filtered text and do not overlap.  Nothing is said of occurrences of a span's text
  outside the spans of the result: they are kept as they are.
\<close>

theorem process_document_rewrites_spans:
  assumes "process_document self text0 user_id document_id = (result, self')"
    and "success result"
    and "apply_text_filters (filter_chain self) text0 = Inr filtered_text"
    and "non_overlapping (entities result)"
    and "\<forall>a \<in> set (entities result). e_start a < e_end a \<and> e_end a \<le> length filtered_text"
  shows "anonymized_text result =
         rewrite_from 0 filtered_text
           (rev (placed_spans (replacement_strategy self) (sorted_by_start_desc (entities result))))"
  using process_document_success [OF assms(1) assms(2) assms(3)]
    replace_all_rewrites [OF assms(4) assms(5)]
  by simp

theorem process_document_rewrites_spans_witness:
  "success (fst (process_document (default_orchestrator (Some incontro_engine))
      ''Mario Rossi ha incontrato Mario Rossi.'' ''user'' ''doc'')) \<and>
   apply_text_filters (filter_chain (default_orchestrator (Some incontro_engine)))
      ''Mario Rossi ha incontrato Mario Rossi.'' = Inr ''Mario Rossi ha incontrato Mario Rossi.'' \<and>
   non_overlapping (entities (fst (process_document (default_orchestrator (Some incontro_engine))
      ''Mario Rossi ha incontrato Mario Rossi.'' ''user'' ''doc''))) \<and>
   list_all (\<lambda>a. e_start a < e_end a \<and> e_end a \<le> length ''Mario Rossi ha incontrato Mario Rossi.'')
     (entities (fst (process_document (default_orchestrator (Some incontro_engine))
        ''Mario Rossi ha incontrato Mario Rossi.'' ''user'' ''doc''))) \<and>
   anonymized_text (fst (process_document (default_orchestrator (Some incontro_engine))
      ''Mario Rossi ha incontrato Mario Rossi.'' ''user'' ''doc'')) =
     rewrite_from 0 ''Mario Rossi ha incontrato Mario Rossi.''
       (rev (placed_spans (replacement_strategy (default_orchestrator (Some incontro_engine)))
          (sorted_by_start_desc
             (entities (fst (process_document (default_orchestrator (Some incontro_engine))
                ''Mario Rossi ha incontrato Mario Rossi.'' ''user'' ''doc'')))))) \<and>
   anonymized_text (fst (process_document (default_orchestrator (Some incontro_engine))
      ''Mario Rossi ha incontrato Mario Rossi.'' ''user'' ''doc'')) =
     ''PERSON_A ha incontrato PERSON_A.''"
proof -
  let ?orch = "default_orchestrator (Some incontro_engine)"
  let ?text = "''Mario Rossi ha incontrato Mario Rossi.''"
  let ?run = "process_document ?orch ?text ''user'' ''doc''"
  have h1: "?run = (fst ?run, snd ?run)" by simp
  have h2: "success (fst ?run)" by code_simp
  have h3: "apply_text_filters (filter_chain ?orch) ?text = Inr ?text" by code_simp
  have h4: "non_overlapping (entities (fst ?run))" by code_simp
  have h5': "list_all (\<lambda>a. e_start a < e_end a \<and> e_end a \<le> length ?text) (entities (fst ?run))"
    by code_simp
  then have h5: "\<forall>a \<in> set (entities (fst ?run)). e_start a < e_end a \<and> e_end a \<le> length ?text"
    by (simp only: list_all_iff)
  have h6: "anonymized_text (fst ?run) = ''PERSON_A ha incontrato PERSON_A.''" by code_simp
  from process_document_rewrites_spans [OF h1 h2 h3 h4 h5] h2 h3 h4 h5' h6
  show ?thesis by blast
qed

section \<open>Batches\<close>









section \<open>Winner selection\<close>









section \<open>Idempotence of the normalizer\<close>

lemma py_isspace_simps [simp]:
  "py_isspace (CHR 0x0A)" "py_isspace (CHR '' '')" "py_isspace (CHR 0x09)"
  by (simp_all add: py_isspace_def)

lemma is_blank_space: "is_blank c \<Longrightarrow> py_isspace c"
  by (auto simp: is_blank_def)

lemma is_blank_newline [simp]: "\<not> is_blank (CHR 0x0A)"
  by (simp add: is_blank_def)

subsection \<open>Spaces and tabs\<close>

lemma sub_blanks_Nil_iff [simp]: "sub_blanks s = [] \<longleftrightarrow> s = []"
  by (cases s) simp_all

lemma sub_blanks_hd:
  "s \<noteq> [] \<Longrightarrow> hd (sub_blanks s) = (if is_blank (hd s) then CHR '' '' else hd s)"
  by (cases s) simp_all

lemma blank_normal_sub_blanks: "blank_normal (sub_blanks s)"
proof (induction s rule: sub_blanks.induct)
  case 1
  show ?case by simp
next
  case (2 c cs)
  show ?case
  proof (cases "is_blank c")
    case True
    let ?r = "dropWhile is_blank cs"
    have "?r \<noteq> [] \<Longrightarrow> \<not> is_blank (hd ?r)" by (rule hd_dropWhile)
    then have "?r \<noteq> [] \<Longrightarrow> hd (sub_blanks ?r) \<noteq> CHR '' ''"
      by (auto simp: sub_blanks_hd is_blank_def)
    with True "2.IH"(1) show ?thesis by auto
  next
    case False
    then have "c \<noteq> CHR 0x09" "c \<noteq> CHR '' ''" by (auto simp: is_blank_def)
    with False "2.IH"(2) show ?thesis by simp
  qed
qed

lemma sub_blanks_fixed: "blank_normal s \<Longrightarrow> sub_blanks s = s"
proof (induction s)
  case Nil
  show ?case by simp
next
  case (Cons c cs)
  from Cons.prems have bn: "blank_normal cs" and c: "c \<noteq> CHR 0x09"
    and pair: "\<not> (c = CHR '' '' \<and> cs \<noteq> [] \<and> hd cs = CHR '' '')"
    by simp_all
  show ?case
  proof (cases "is_blank c")
    case True
    then have sp: "c = CHR '' ''" using c by (simp add: is_blank_def)
    have "dropWhile is_blank cs = cs"
    proof (cases cs)
      case Nil
      then show ?thesis by simp
    next
      case (Cons d ds)
      then have "d \<noteq> CHR '' ''" using pair sp by simp
      moreover have "d \<noteq> CHR 0x09" using bn Cons by simp
      ultimately show ?thesis using Cons by (simp add: is_blank_def)
    qed
    with True sp Cons.IH [OF bn] show ?thesis by simp
  next
    case False
    with Cons.IH [OF bn] show ?thesis by simp
  qed
qed

lemma blank_normal_append:
  "blank_normal (xs @ ys) \<Longrightarrow> blank_normal xs \<and> blank_normal ys"
proof (induction xs)
  case Nil
  then show ?case by simp
next
  case (Cons c xs)
  then show ?case by (cases xs) auto
qed

subsection \<open>Blank lines\<close>

lemma last_newline_None_iff: "last_newline w = None \<longleftrightarrow> CHR 0x0A \<notin> set w"
  by (induction w) (auto split: option.splits)

lemma last_newline_Some:
  "last_newline w = Some k \<Longrightarrow> k < length w \<and> CHR 0x0A \<notin> set (drop (Suc k) w)"
proof (induction w arbitrary: k)
  case Nil
  then show ?case by simp
next
  case (Cons x w)
  show ?case
  proof (cases "last_newline w")
    case None
    with Cons.prems have "k = 0" by (simp split: if_splits)
    with None show ?thesis by (simp add: last_newline_None_iff)
  next
    case (Some k')
    with Cons.prems have "k = Suc k'" by simp
    with Cons.IH [OF Some] show ?thesis by simp
  qed
qed

lemma blank_lines_match_None_iff:
  "blank_lines_match cs = None \<longleftrightarrow> CHR 0x0A \<notin> set (tl (takeWhile py_isspace cs))"
  by (cases "takeWhile py_isspace cs")
     (simp_all add: blank_lines_match_def last_newline_None_iff)

lemma takeWhile_drop:
  "n \<le> length (takeWhile P xs) \<Longrightarrow> takeWhile P (drop n xs) = drop n (takeWhile P xs)"
proof (induction xs arbitrary: n)
  case Nil
  then show ?case by simp
next
  case (Cons x xs)
  then show ?case by (cases n) (auto split: if_splits)
qed

lemma blank_lines_match_Some:
  assumes "blank_lines_match cs = Some k"
  shows "CHR 0x0A \<notin> set (takeWhile py_isspace (drop (Suc k) cs))"
proof -
  from assms obtain x w k' where tw: "takeWhile py_isspace cs = x # w"
    and ln: "last_newline w = Some k'" and k: "k = Suc k'"
    by (auto simp: blank_lines_match_def split: list.splits)
  from last_newline_Some [OF ln] have k': "k' < length w"
    and none: "CHR 0x0A \<notin> set (drop (Suc k') w)" by simp_all
  have "Suc k \<le> length (takeWhile py_isspace cs)" using tw k k' by simp
  then have "takeWhile py_isspace (drop (Suc k) cs) = drop (Suc k) (takeWhile py_isspace cs)"
    by (rule takeWhile_drop)
  also have "\<dots> = drop (Suc k') w" using tw k by simp
  finally show ?thesis using none by simp
qed

lemma sub_blank_lines_takeWhile:
  "CHR 0x0A \<notin> set (tl (takeWhile py_isspace s)) \<Longrightarrow>
   takeWhile py_isspace (sub_blank_lines s) = takeWhile py_isspace s"
proof (induction s)
  case Nil
  show ?case by simp
next
  case (Cons c cs)
  show ?case
  proof (cases "py_isspace c")
    case False
    then have "c \<noteq> CHR 0x0A" by auto
    with False show ?thesis by simp
  next
    case True
    with Cons.prems have no: "CHR 0x0A \<notin> set (takeWhile py_isspace cs)" by simp
    then have no_tl: "CHR 0x0A \<notin> set (tl (takeWhile py_isspace cs))"
      by (cases "takeWhile py_isspace cs") auto
    then have "blank_lines_match cs = None" by (simp add: blank_lines_match_None_iff)
    then have "sub_blank_lines (c # cs) = c # sub_blank_lines cs" by simp
    with True Cons.IH [OF no_tl] show ?thesis by simp
  qed
qed

lemma blank_lines_match_cong:
  "takeWhile py_isspace a = takeWhile py_isspace b \<Longrightarrow> blank_lines_match a = blank_lines_match b"
  by (simp add: blank_lines_match_def)

lemma newline_stable_sub_blank_lines: "newline_stable (sub_blank_lines s)"
proof (induction s rule: sub_blank_lines.induct)
  case 1
  show ?case by simp
next
  case (2 c cs)
  show ?case
  proof (cases "c = CHR 0x0A")
    case False
    with "2.IH" show ?thesis by simp
  next
    case True
    show ?thesis
    proof (cases "blank_lines_match cs")
      case None
      then have "CHR 0x0A \<notin> set (tl (takeWhile py_isspace cs))"
        by (simp add: blank_lines_match_None_iff)
      then have "takeWhile py_isspace (sub_blank_lines cs) = takeWhile py_isspace cs"
        by (rule sub_blank_lines_takeWhile)
      then have "blank_lines_match (sub_blank_lines cs) = None"
        using None blank_lines_match_cong by metis
      with True None "2.IH" show ?thesis by simp
    next
      case (Some k)
      let ?r = "drop (Suc k) cs"
      have no: "CHR 0x0A \<notin> set (takeWhile py_isspace ?r)"
        by (rule blank_lines_match_Some [OF Some])
      then have no_tl: "CHR 0x0A \<notin> set (tl (takeWhile py_isspace ?r))"
        by (cases "takeWhile py_isspace ?r") auto
      have tw: "takeWhile py_isspace (sub_blank_lines ?r) = takeWhile py_isspace ?r"
        by (rule sub_blank_lines_takeWhile [OF no_tl])
      have m1: "blank_lines_match (sub_blank_lines ?r) = None"
        using no_tl tw by (simp add: blank_lines_match_None_iff)
      have m2: "blank_lines_match (CHR 0x0A # sub_blank_lines ?r) = None"
        using no tw by (simp add: blank_lines_match_None_iff)
      from True Some "2.IH" m1 m2 show ?thesis by simp
    qed
  qed
qed

lemma sub_blank_lines_fixed: "newline_stable s \<Longrightarrow> sub_blank_lines s = s"
  by (induction s) auto

lemma sub_blank_lines_Nil_iff [simp]: "sub_blank_lines s = [] \<longleftrightarrow> s = []"
  by (cases s) (simp_all split: option.splits)

lemma sub_blank_lines_hd: "s \<noteq> [] \<Longrightarrow> hd (sub_blank_lines s) = hd s"
  by (cases s) (simp_all split: option.splits)

lemma blank_normal_drop: "blank_normal s \<Longrightarrow> blank_normal (drop n s)"
  using blank_normal_append [of "take n s" "drop n s"] by simp

lemma blank_normal_sub_blank_lines:
  "blank_normal s \<Longrightarrow> blank_normal (sub_blank_lines s)"
proof (induction s rule: sub_blank_lines.induct)
  case 1
  show ?case by simp
next
  case (2 c cs)
  from "2.prems" have bn: "blank_normal cs" and c: "c \<noteq> CHR 0x09"
    and pair: "\<not> (c = CHR '' '' \<and> cs \<noteq> [] \<and> hd cs = CHR '' '')"
    by simp_all
  have keep: "blank_normal (c # sub_blank_lines cs)" if "blank_normal (sub_blank_lines cs)"
    using that c pair by (auto simp: sub_blank_lines_hd)
  show ?case
  proof (cases "c = CHR 0x0A")
    case False
    with keep "2.IH" bn show ?thesis by simp
  next
    case True
    show ?thesis
    proof (cases "blank_lines_match cs")
      case None
      with True keep "2.IH" bn show ?thesis by simp
    next
      case (Some k)
      have "blank_normal (sub_blank_lines (drop (Suc k) cs))"
        using "2.IH" True Some blank_normal_drop [OF bn] by simp
      with True Some show ?thesis by simp
    qed
  qed
qed

lemma blank_lines_match_prefix:
  "blank_lines_match (xs @ ys) = None \<Longrightarrow> blank_lines_match xs = None"
proof -
  assume "blank_lines_match (xs @ ys) = None"
  then have no: "CHR 0x0A \<notin> set (tl (takeWhile py_isspace (xs @ ys)))"
    by (simp add: blank_lines_match_None_iff)
  have "set (tl (takeWhile py_isspace xs)) \<subseteq> set (tl (takeWhile py_isspace (xs @ ys)))"
    by (cases xs) (auto simp: takeWhile_append split: if_splits dest: set_takeWhileD)
  with no show ?thesis by (auto simp: blank_lines_match_None_iff)
qed

lemma newline_stable_append:
  "newline_stable (xs @ ys) \<Longrightarrow> newline_stable xs \<and> newline_stable ys"
proof (induction xs)
  case Nil
  then show ?case by simp
next
  case (Cons c xs)
  then show ?case using blank_lines_match_prefix [of xs ys] by auto
qed

subsection \<open>Stripping\<close>

lemma lstrip_decomp: "takeWhile py_isspace s @ lstrip s = s"
  by (simp add: lstrip_def)

lemma rstrip_decomp: "rstrip s @ rev (takeWhile py_isspace (rev s)) = s"
proof -
  have "rev (takeWhile py_isspace (rev s) @ dropWhile py_isspace (rev s)) = s" by simp
  then show ?thesis unfolding rstrip_def rev_append .
qed

lemma rstrip_Cons: "\<not> py_isspace c \<Longrightarrow> rstrip (c # s) = c # rstrip s"
  by (simp add: rstrip_def dropWhile_append3)

lemma rstrip_idem: "rstrip (rstrip s) = rstrip s"
  by (simp add: rstrip_def)

lemma lstrip_rstrip_lstrip: "lstrip (rstrip (lstrip s)) = rstrip (lstrip s)"
proof (cases "lstrip s")
  case Nil
  show ?thesis unfolding Nil by (simp add: rstrip_def lstrip_def)
next
  case (Cons c u)
  then have eq: "dropWhile py_isspace s = c # u" by (simp only: lstrip_def)
  then have "dropWhile py_isspace s \<noteq> []" by simp
  then have "\<not> py_isspace (hd (dropWhile py_isspace s))" by (rule hd_dropWhile)
  then have c: "\<not> py_isspace c" by (simp add: eq)
  show ?thesis unfolding Cons by (simp add: rstrip_Cons [OF c] lstrip_def c)
qed

lemma strip_idem: "strip (strip s) = strip s"
  by (simp add: strip_def lstrip_rstrip_lstrip rstrip_idem)

lemma blank_normal_strip: "blank_normal s \<Longrightarrow> blank_normal (strip s)"
proof -
  assume "blank_normal s"
  then have "blank_normal (lstrip s)"
    using blank_normal_append [of "takeWhile py_isspace s" "lstrip s"]
    by (simp add: lstrip_decomp)
  then show ?thesis
    using blank_normal_append [of "rstrip (lstrip s)" "rev (takeWhile py_isspace (rev (lstrip s)))"]
    by (simp add: rstrip_decomp strip_def)
qed

lemma newline_stable_strip: "newline_stable s \<Longrightarrow> newline_stable (strip s)"
proof -
  assume "newline_stable s"
  then have "newline_stable (lstrip s)"
    using newline_stable_append [of "takeWhile py_isspace s" "lstrip s"]
    by (simp add: lstrip_decomp)
  then show ?thesis
    using newline_stable_append [of "rstrip (lstrip s)" "rev (takeWhile py_isspace (rev (lstrip s)))"]
    by (simp add: rstrip_decomp strip_def)
qed

lemma normalize_text_default:
  "normalize_text x False True True True = strip (sub_blank_lines (sub_blanks x))"
  by (simp add: normalize_text_def strip_def lstrip_def rstrip_def)

text \<open>
  Claim C8.  With the default options (no lower-casing, extra whitespace removed, Unicode
  normalization, newlines preserved) normalizing a normalized text changes nothing.
\<close>

theorem normalize_text_idempotent:
  "normalize_text (normalize_text x False True True True) False True True True =
   normalize_text x False True True True"
proof -
  let ?y = "sub_blank_lines (sub_blanks x)"
  let ?z = "strip ?y"
  have "blank_normal ?y"
    by (rule blank_normal_sub_blank_lines [OF blank_normal_sub_blanks])
  then have bn: "blank_normal ?z" by (rule blank_normal_strip)
  have "newline_stable ?y" by (rule newline_stable_sub_blank_lines)
  then have ns: "newline_stable ?z" by (rule newline_stable_strip)
  have "strip (sub_blank_lines (sub_blanks ?z)) = strip ?z"
    by (simp only: sub_blanks_fixed [OF bn] sub_blank_lines_fixed [OF ns])
  also have "\<dots> = ?z" by (rule strip_idem)
  finally show ?thesis by (simp only: normalize_text_default)
qed

section \<open>Cache keys\<close>

lemma generate_cache_key_eq_iff:
  "generate_cache_key t1 e1 c1 = generate_cache_key t2 e2 c2 \<longleftrightarrow>
   take 16 (sha256_hexdigest (encode (key_data t1 e1 c1))) =
   take 16 (sha256_hexdigest (encode (key_data t2 e2 c2)))"
  by (simp add: generate_cache_key_def Let_def)

lemma split_at_first:
  "x \<notin> set a \<Longrightarrow> x \<notin> set a' \<Longrightarrow> a @ x # b = a' @ x # b' \<Longrightarrow> a = a' \<and> b = b'"
proof (induction a arbitrary: a')
  case Nil
  then show ?case by (cases a') auto
next
  case (Cons y a)
  then show ?case by (cases a') auto
qed

lemma key_data_inj:
  assumes "CHR ''|'' \<notin> set e1" "CHR ''|'' \<notin> set c1" "CHR ''|'' \<notin> set e2" "CHR ''|'' \<notin> set c2"
    and "key_data t1 e1 c1 = key_data t2 e2 c2"
  shows "t1 = t2 \<and> e1 = e2 \<and> c1 = c2"
proof -
  from assms(5) have "rev (key_data t1 e1 c1) = rev (key_data t2 e2 c2)" by simp
  then have eq: "rev c1 @ CHR ''|'' # (rev e1 @ CHR ''|'' # rev t1) =
                 rev c2 @ CHR ''|'' # (rev e2 @ CHR ''|'' # rev t2)"
    by (simp add: key_data_def)
  have c: "rev c1 = rev c2 \<and> rev e1 @ CHR ''|'' # rev t1 = rev e2 @ CHR ''|'' # rev t2"
    using assms(2) assms(4) by (intro split_at_first [OF _ _ eq]) simp_all
  then have eq2: "rev e1 @ CHR ''|'' # rev t1 = rev e2 @ CHR ''|'' # rev t2" by simp
  have "rev e1 = rev e2 \<and> rev t1 = rev t2"
    using assms(1) assms(3) by (intro split_at_first [OF _ _ eq2]) simp_all
  with c show ?thesis by simp
qed

lemma utf8_char_cases:
  "(of_char c < (128 :: nat) \<and> utf8_char c = [of_char c]) \<or>
   ((128 :: nat) \<le> of_char c \<and>
    utf8_char c = [192 + of_char c div 64, 128 + of_char c mod 64])"
  by (simp add: utf8_char_def Let_def)

lemma utf8_char_inj:
  assumes "utf8_char c @ xs = utf8_char d @ ys"
  shows "c = d \<and> xs = ys"
proof -
  let ?m = "of_char c :: nat" and ?n = "of_char d :: nat"
  have "?m = ?n \<and> xs = ys"
    using utf8_char_cases [of c] utf8_char_cases [of d] assms
  proof (elim disjE conjE)
    assume "?m < 128" "?n < 128" "utf8_char c = [?m]" "utf8_char d = [?n]"
    with assms show ?thesis by simp
  next
    assume "?m < 128" "128 \<le> ?n" "utf8_char c = [?m]"
      "utf8_char d = [192 + ?n div 64, 128 + ?n mod 64]"
    with assms show ?thesis by simp
  next
    assume "128 \<le> ?m" "?n < 128" "utf8_char c = [192 + ?m div 64, 128 + ?m mod 64]"
      "utf8_char d = [?n]"
    with assms show ?thesis by simp
  next
    assume a: "128 \<le> ?m" "128 \<le> ?n" "utf8_char c = [192 + ?m div 64, 128 + ?m mod 64]"
      "utf8_char d = [192 + ?n div 64, 128 + ?n mod 64]"
    with assms have "?m div 64 = ?n div 64" "?m mod 64 = ?n mod 64" "xs = ys" by simp_all
    then have "?m = ?n" by (metis div_mult_mod_eq)
    with \<open>xs = ys\<close> show ?thesis by simp
  qed
  then show ?thesis by simp
qed

lemma encode_inj: "encode a = encode b \<Longrightarrow> a = b"
proof (induction a arbitrary: b)
  case Nil
  show ?case
  proof (cases b)
    case Nil
    then show ?thesis by simp
  next
    case (Cons d ds)
    with Nil utf8_char_cases [of d] show ?thesis by (auto simp: encode_def)
  qed
next
  case (Cons c cs)
  show ?case
  proof (cases b)
    case Nil
    with Cons.prems utf8_char_cases [of c] show ?thesis by (auto simp: encode_def)
  next
    case (Cons d ds)
    with Cons.prems have "utf8_char c @ encode cs = utf8_char d @ encode ds"
      by (simp add: encode_def)
    then have "c = d" "encode cs = encode ds" using utf8_char_inj by blast+
    with Cons.IH [of ds] Cons show ?thesis by simp
  qed
qed

text \<open>
  Whatever the engine and the configuration, the fingerprints of all texts lie in a finite
  set, so two different texts share one.
\<close>

lemma generate_cache_key_not_injective:
  "\<not> inj (\<lambda>text0. generate_cache_key text0 engine_name config_hash)"
proof
  let ?f = "\<lambda>text0. generate_cache_key text0 engine_name config_hash"
  assume inj: "inj ?f"
  have "range ?f \<subseteq> (\<lambda>s. ''privacy:doc:'' @ s) ` {s. set s \<subseteq> UNIV \<and> length s \<le> 16}"
    by (auto simp: generate_cache_key_def Let_def)
  moreover have "finite {s :: string. set s \<subseteq> UNIV \<and> length s \<le> 16}"
    by (rule finite_lists_length_le) simp
  ultimately have "finite (range ?f)"
    by (meson finite_imageI finite_subset)
  then have "finite (UNIV :: string set)"
    using inj by (rule finite_imageD)
  then show False using infinite_UNIV_listI by blast
qed

text \<open>
  Claim C5, as amended.  When the engine names and the configuration hashes contain no
  vertical bar, two calls of \<open>generate_cache_key\<close> return the same fingerprint exactly when
  their inputs are the same, or their encoded key strings differ and the first sixteen
  hexadecimal digits of the SHA-256 digests of these strings coincide.
\<close>

theorem generate_cache_key_collisions:
  assumes "CHR ''|'' \<notin> set e1" "CHR ''|'' \<notin> set c1" "CHR ''|'' \<notin> set e2" "CHR ''|'' \<notin> set c2"
  shows "generate_cache_key t1 e1 c1 = generate_cache_key t2 e2 c2 \<longleftrightarrow>
         (t1 = t2 \<and> e1 = e2 \<and> c1 = c2) \<or>
         (encode (key_data t1 e1 c1) \<noteq> encode (key_data t2 e2 c2) \<and>
          take 16 (sha256_hexdigest (encode (key_data t1 e1 c1))) =
          take 16 (sha256_hexdigest (encode (key_data t2 e2 c2))))"
proof (cases "t1 = t2 \<and> e1 = e2 \<and> c1 = c2")
  case True
  then show ?thesis by simp
next
  case False
  then have "key_data t1 e1 c1 \<noteq> key_data t2 e2 c2"
    using key_data_inj [OF assms] by blast
  then have "encode (key_data t1 e1 c1) \<noteq> encode (key_data t2 e2 c2)"
    using encode_inj by blast
  with False show ?thesis unfolding generate_cache_key_eq_iff by blast
qed

text \<open>
  The claim as stated fails.  A vertical bar inside the text or the engine name moves the
  boundary between the fields: the two calls below differ in their texts and in their
  engine names, hash the same string and return the same fingerprint.  And for a fixed
  engine and configuration the fingerprint is not injective in the text.
\<close>

theorem generate_cache_key_counterexample:
  "generate_cache_key ''Milano|spacy'' ''presidio'' ''0123abcd'' =
   generate_cache_key ''Milano'' ''spacy|presidio'' ''0123abcd'' \<and>
   ''Milano|spacy'' \<noteq> ''Milano'' \<and> ''presidio'' \<noteq> ''spacy|presidio'' \<and>
   \<not> inj (\<lambda>text0. generate_cache_key text0 ''presidio'' ''0123abcd'')"
  using generate_cache_key_not_injective [of "''presidio''" "''0123abcd''"]
  by (simp add: generate_cache_key_def key_data_def)

theorem generate_cache_key_collisions_witness:
  "CHR ''|'' \<notin> set ''spacy'' \<and> CHR ''|'' \<notin> set ''0123abcd'' \<and>
   (generate_cache_key ''abc'' ''spacy'' ''0123abcd'' =
    generate_cache_key ''abd'' ''spacy'' ''0123abcd'' \<longleftrightarrow>
    take 16 (sha256_hexdigest (encode ''abc|spacy|0123abcd'')) =
    take 16 (sha256_hexdigest (encode ''abd|spacy|0123abcd'')))"
proof -
  have h1: "CHR ''|'' \<notin> set ''spacy''" by simp
  have h2: "CHR ''|'' \<notin> set ''0123abcd''" by simp
  have k1: "key_data ''abc'' ''spacy'' ''0123abcd'' = ''abc|spacy|0123abcd''"
    by (simp add: key_data_def)
  have k2: "key_data ''abd'' ''spacy'' ''0123abcd'' = ''abd|spacy|0123abcd''"
    by (simp add: key_data_def)
  have ne: "encode ''abc|spacy|0123abcd'' \<noteq> encode ''abd|spacy|0123abcd''"
    using encode_inj [of "''abc|spacy|0123abcd''" "''abd|spacy|0123abcd''"] by auto
  from generate_cache_key_collisions [OF h1 h2 h1 h2, of "''abc''" "''abd''"] ne
  have "generate_cache_key ''abc'' ''spacy'' ''0123abcd'' =
        generate_cache_key ''abd'' ''spacy'' ''0123abcd'' \<longleftrightarrow>
        take 16 (sha256_hexdigest (encode ''abc|spacy|0123abcd'')) =
        take 16 (sha256_hexdigest (encode ''abd|spacy|0123abcd''))"
    unfolding k1 k2 by simp
  with h1 h2 show ?thesis by blast
qed

end
